theory Spec2Isabelle
  imports Main "HOL-Library.Word" "HOL-Library.Multiset" "HOL-Library.AList"
begin

section \<open>Data model (internal/model/document.go)\<close>

text \<open>
  Go's \<open>int\<close> is 64 bits wide on the platform the service is built for
  (linux/amd64). The pagination fields are modelled as 64-bit words with the
  signed comparisons of Go; arithmetic on them wraps. Sort keys are only ever
  compared, so they are modelled by their signed value as an \<open>int\<close>.
  A \<open>time.Time\<close> is modelled by its clock reading in nanoseconds and a
  \<open>time.Duration\<close> by its length in nanoseconds.
\<close>

type_synonym go_int = "64 word"
type_synonym time = int
type_synonym duration = int

record SecondLevelItem =
  sl_ID :: string
  sl_Type :: string
  sl_Content :: string
  sl_Status :: string
  sl_PrivateInfo :: string

record FirstLevelItem =
  item_ID :: string
  item_Name :: string
  item_Sort :: int
  item_Value :: string
  item_SecondLevel :: "SecondLevelItem list"
  item_MetaData :: string

text \<open>
  The record of a document is polymorphic in the representation of its \<open>Items\<close>
  slice. Where aliasing plays no role a slice is the list of its elements, \<open>None\<close>
  when the Go slice is nil and \<open>Some xs\<close> when it is a non-nil slice with elements
  \<open>xs\<close> (type \<open>Doc\<close>). The store model further down represents the slice by its
  header instead.
\<close>

record 'items Document =
  doc_ID :: string
  doc_Title :: string
  doc_Description :: string
  doc_CreatedAt :: time
  doc_UpdatedAt :: time
  doc_Items :: 'items
  doc_Internal :: string

type_synonym Doc = "FirstLevelItem list option Document"

record UpdateDocumentRequest =
  req_Title :: "string option"
  req_Description :: "string option"
  req_Items :: "FirstLevelItem list option option"

record PaginationParams =
  Page :: go_int
  PerPage :: go_int

text \<open>\<open>len\<close> and \<open>range\<close> treat a nil slice as the empty one.\<close>

definition slice_elems :: "'a list option \<Rightarrow> 'a list" where
  "slice_elems s = (case s of None \<Rightarrow> [] | Some xs \<Rightarrow> xs)"

section \<open>Pagination (PaginationParams.Validate, PaginationParams.GetOffset)\<close>

definition Validate :: "PaginationParams \<Rightarrow> PaginationParams" where
  "Validate p =
     (let p1 = (if Page p <s 1 then p\<lparr>Page := 1\<rparr> else p);
          p2 = (if PerPage p1 <s 1 then p1\<lparr>PerPage := 10\<rparr> else p1)
      in (if 100 <s PerPage p2 then p2\<lparr>PerPage := 100\<rparr> else p2))"

definition GetOffset :: "PaginationParams \<Rightarrow> go_int" where
  "GetOffset p = (Page p - 1) * PerPage p"

text \<open>
  The query that \<open>Storage.List\<close> builds from the parameters it is given:
  \<open>Limit(params.PerPage)\<close> and \<open>Offset(params.GetOffset())\<close>.
\<close>

record StoreQuery =
  q_Limit :: go_int
  q_Offset :: go_int

definition Storage_List_query :: "PaginationParams \<Rightarrow> StoreQuery" where
  "Storage_List_query params = \<lparr>q_Limit = PerPage params, q_Offset = GetOffset params\<rparr>"

text \<open>
  \<open>Service.List\<close> validates its copy of the parameters and hands the validated
  copy to the store.
\<close>

definition Service_List_query :: "PaginationParams \<Rightarrow> StoreQuery" where
  "Service_List_query params = Storage_List_query (Validate params)"

section \<open>TTL cache (package cache)\<close>

text \<open>
  The Go map \<open>items\<close> is an association list; \<open>map_of\<close> is the lookup, \<open>AList.update\<close>
  the assignment \<open>c.items[key] = v\<close> and \<open>AList.delete\<close> the builtin \<open>delete\<close>. The
  order of the list has no meaning: Go iterates a map in an order chosen at random, so
  the one place where the order matters (\<open>evictRandom\<close>) takes the position of the key
  that the iteration meets first as an extra argument. \<open>Set\<close>, \<open>Delete\<close>, \<open>Clear\<close>
  and \<open>Size\<close> run under the cache's lock from start to end, so each is one atomic
  transition of the cache. \<open>Get\<close> and \<open>cleanup\<close> take the lock twice; their two
  locked sections are functions of their own, composed here with no other goroutine
  in between. Each \<open>time.Now()\<close> is an extra argument holding the clock reading.
\<close>

record cacheItem =
  document :: Doc
  expiresAt :: time

record Cache =
  items :: "(string \<times> cacheItem) list"
  ttl :: duration
  capacity :: int
  cleanupInterval :: duration

definition Cache_New :: "duration \<Rightarrow> duration \<Rightarrow> int \<Rightarrow> Cache" where
  "Cache_New ttl0 cleanupInterval0 capacity0 =
     \<lparr>items = [], ttl = ttl0, capacity = capacity0, cleanupInterval = cleanupInterval0\<rparr>"

text \<open>\<open>t.After(u)\<close> on clock readings.\<close>

definition After :: "time \<Rightarrow> time \<Rightarrow> bool" where
  "After t u \<longleftrightarrow> u < t"

text \<open>
  The write-locked section of \<open>Get\<close> (the slow path): the entry is read again and
  deleted when it is still there and expired at the second clock reading.
\<close>

definition Get_expire :: "Cache \<Rightarrow> string \<Rightarrow> time \<Rightarrow> Cache" where
  "Get_expire c key now =
     (case map_of (items c) key of
        Some item \<Rightarrow> if After now (expiresAt item) then c\<lparr>items := AList.delete key (items c)\<rparr> else c
      | None \<Rightarrow> c)"

text \<open>
  \<open>Get\<close>, run without another goroutine between its two locked sections. \<open>now1\<close> is
  the clock reading of the first expiry test and \<open>now2\<close> the one of the test under the
  write lock. The result is the cache afterwards and the document, \<open>None\<close> for
  \<open>(nil, false)\<close>.
\<close>

definition Cache_Get :: "Cache \<Rightarrow> string \<Rightarrow> time \<Rightarrow> time \<Rightarrow> Cache \<times> Doc option" where
  "Cache_Get c key now1 now2 =
     (case map_of (items c) key of
        None \<Rightarrow> (c, None)
      | Some item \<Rightarrow>
          if After now1 (expiresAt item) then (Get_expire c key now2, None)
          else (c, Some (document item)))"

text \<open>
  The first key that \<open>range\<close> yields on a map: none on an empty map, otherwise the key
  at the position that \<open>r\<close> selects.
\<close>

definition range_first :: "(string \<times> cacheItem) list \<Rightarrow> nat \<Rightarrow> string option" where
  "range_first its r = (if its = [] then None else Some (fst (its ! (r mod length its))))"

text \<open>
  \<open>evictRandom\<close> deletes the first key that \<open>range c.items\<close> yields and returns; on an
  empty map the loop body never runs.
\<close>

definition Cache_evictRandom :: "Cache \<Rightarrow> nat \<Rightarrow> Cache" where
  "Cache_evictRandom c r =
     (case range_first (items c) r of
        None \<Rightarrow> c
      | Some key \<Rightarrow> c\<lparr>items := AList.delete key (items c)\<rparr>)"

definition Cache_Set :: "Cache \<Rightarrow> string \<Rightarrow> Doc \<Rightarrow> time \<Rightarrow> nat \<Rightarrow> Cache" where
  "Cache_Set c key doc now r =
     (let c1 = (if map_of (items c) key = None \<and> 0 < capacity c
                    \<and> capacity c \<le> int (length (items c))
                then Cache_evictRandom c r else c)
      in c1\<lparr>items := AList.update key \<lparr>document = doc, expiresAt = now + ttl c1\<rparr> (items c1)\<rparr>)"

definition Cache_Delete :: "Cache \<Rightarrow> string \<Rightarrow> Cache" where
  "Cache_Delete c key = c\<lparr>items := AList.delete key (items c)\<rparr>"

definition Cache_Clear :: "Cache \<Rightarrow> Cache" where
  "Cache_Clear c = c\<lparr>items := []\<rparr>"

definition Cache_Size :: "Cache \<Rightarrow> int" where
  "Cache_Size c = int (length (items c))"

text \<open>
  \<open>cleanup\<close>: the first pass collects the keys whose entry is expired at \<open>now\<close>, the
  second one reads each collected key again and deletes it when it is still expired.
\<close>

definition cleanup_collect :: "Cache \<Rightarrow> time \<Rightarrow> string list" where
  "cleanup_collect c now = map fst (filter (\<lambda>(key, item). After now (expiresAt item)) (items c))"

fun cleanup_delete :: "(string \<times> cacheItem) list \<Rightarrow> string list \<Rightarrow> time \<Rightarrow> (string \<times> cacheItem) list" where
  "cleanup_delete its [] now = its"
| "cleanup_delete its (key # keys) now =
     cleanup_delete
       (case map_of its key of
          Some item \<Rightarrow> if After now (expiresAt item) then AList.delete key its else its
        | None \<Rightarrow> its)
       keys now"

definition Cache_cleanup :: "Cache \<Rightarrow> time \<Rightarrow> Cache" where
  "Cache_cleanup c now =
     (let keysToDelete = cleanup_collect c now
      in if 0 < length keysToDelete
         then c\<lparr>items := cleanup_delete (items c) keysToDelete now\<rparr> else c)"

text \<open>A call of one of the cache's methods, with the readings of its environment.\<close>

datatype cache_op =
    OpGet string time time
  | OpSet string Doc time nat
  | OpDelete string
  | OpClear
  | OpCleanup time

fun apply_op :: "Cache \<Rightarrow> cache_op \<Rightarrow> Cache" where
  "apply_op c (OpGet key now1 now2) = fst (Cache_Get c key now1 now2)"
| "apply_op c (OpSet key doc now r) = Cache_Set c key doc now r"
| "apply_op c (OpDelete key) = Cache_Delete c key"
| "apply_op c OpClear = Cache_Clear c"
| "apply_op c (OpCleanup now) = Cache_cleanup c now"

definition run_ops :: "Cache \<Rightarrow> cache_op list \<Rightarrow> Cache" where
  "run_ops c ops = foldl apply_op c ops"

text \<open>
  What holds of every cache that was built with capacity \<open>cap\<close>: the capacity is
  never changed, no key is held twice and at most \<open>cap\<close> entries are resident.
\<close>

definition cache_inv :: "int \<Rightarrow> Cache \<Rightarrow> bool" where
  "cache_inv cap c \<longleftrightarrow>
     capacity c = cap \<and> distinct (map fst (items c)) \<and> int (length (items c)) \<le> cap"


section \<open>Service.Update\<close>

text \<open>
  The store is the \<open>documentStorage\<close> interface of the service: its methods are
  functions on a store state \<open>'st\<close>, and an error is its message. \<open>GetByID\<close> reads
  the store; \<open>Update\<close> returns the error, if any, and the store afterwards.
\<close>

record 'st documentStorage =
  st_GetByID :: "'st \<Rightarrow> string \<Rightarrow> string + Doc"
  st_Update :: "'st \<Rightarrow> Doc \<Rightarrow> string option \<times> 'st"

text \<open>
  The assignments of \<open>Service.Update\<close> to the document it got from the store: each
  field of the request that is not nil replaces the field of the document, and
  \<open>UpdatedAt\<close> becomes the clock reading \<open>now\<close>.
\<close>

definition Update_merge :: "Doc \<Rightarrow> UpdateDocumentRequest \<Rightarrow> time \<Rightarrow> Doc" where
  "Update_merge doc req now =
     (let doc = (case req_Title req of Some t \<Rightarrow> doc\<lparr>doc_Title := t\<rparr> | None \<Rightarrow> doc);
          doc = (case req_Description req of Some d \<Rightarrow> doc\<lparr>doc_Description := d\<rparr> | None \<Rightarrow> doc);
          doc = (case req_Items req of Some its \<Rightarrow> doc\<lparr>doc_Items := its\<rparr> | None \<Rightarrow> doc)
      in doc\<lparr>doc_UpdatedAt := now\<rparr>)"

text \<open>
  \<open>Service.Update\<close>: the result, the store and the cache afterwards. The cache entry
  of the document is dropped once the store has accepted the write.
\<close>

definition Service_Update ::
  "'st documentStorage \<Rightarrow> 'st \<Rightarrow> Cache \<Rightarrow> string \<Rightarrow> UpdateDocumentRequest \<Rightarrow> time
     \<Rightarrow> (string + Doc) \<times> 'st \<times> Cache" where
  "Service_Update storage st cache key req now =
     (case st_GetByID storage st key of
        Inl err \<Rightarrow> (Inl (''document not found: '' @ err), st, cache)
      | Inr doc \<Rightarrow>
          (let doc' = Update_merge doc req now
           in case st_Update storage st doc' of
                (Some err, st') \<Rightarrow> (Inl (''failed to update document: '' @ err), st', cache)
              | (None, st') \<Rightarrow> (Inr doc', st', Cache_Delete cache key)))"

text \<open>A store for the examples: documents by ID in an association list, never failing a write.\<close>

definition mem_storage :: "(string \<times> Doc) list documentStorage" where
  "mem_storage =
     \<lparr>st_GetByID = (\<lambda>st key. case map_of st key of
                                None \<Rightarrow> Inl ''document not found''
                              | Some doc \<Rightarrow> Inr doc),
      st_Update = (\<lambda>st doc. (None, AList.update (doc_ID doc) doc st))\<rparr>"

section \<open>Documents of the service test\<close>

text \<open>
  The two documents that \<open>MockStorage.List\<close> returns in the service test; the fields
  the test leaves out have Go's zero values.
\<close>

definition mk_item :: "string \<Rightarrow> int \<Rightarrow> FirstLevelItem" where
  "mk_item i s =
     \<lparr>item_ID = i, item_Name = [], item_Sort = s, item_Value = [],
      item_SecondLevel = [], item_MetaData = []\<rparr>"

definition mk_doc :: "string \<Rightarrow> 'items \<Rightarrow> 'items Document" where
  "mk_doc i its =
     \<lparr>doc_ID = i, doc_Title = [], doc_Description = [], doc_CreatedAt = 0,
      doc_UpdatedAt = 0, doc_Items = its, doc_Internal = []\<rparr>"

definition doc_1 :: Doc where
  "doc_1 = mk_doc ''doc-1''
     (Some [mk_item ''item-1'' 10, mk_item ''item-2'' 50, mk_item ''item-3'' 5])"

definition doc_2 :: Doc where
  "doc_2 = mk_doc ''doc-2'' (Some [mk_item ''item-A'' 1, mk_item ''item-B'' 99])"

section \<open>Item processor (Service.processDocument, Service.processDocumentsParallel)\<close>

text \<open>
  \<open>sort.Slice\<close> belongs to Go's standard library, not to this repository. It is a
  parameter of the model: a function from the comparator and the elements of the slice
  to the elements after the call. Its documentation promises that the slice is sorted
  by the comparator and that the sort is not guaranteed to be stable;
  \<open>sort_Slice_spec\<close> states the first promise for a given comparator.
\<close>

type_synonym 'a sorter = "('a \<Rightarrow> 'a \<Rightarrow> bool) \<Rightarrow> 'a list \<Rightarrow> 'a list"

definition sort_Slice_spec :: "'a sorter \<Rightarrow> ('a \<Rightarrow> 'a \<Rightarrow> bool) \<Rightarrow> bool" where
  "sort_Slice_spec srt lessFn \<longleftrightarrow>
     (\<forall>xs. mset (srt lessFn xs) = mset xs \<and> sorted_wrt (\<lambda>a b. \<not> lessFn b a) (srt lessFn xs))"

text \<open>The comparator of \<open>processDocument\<close>: \<open>Items[i].Sort > Items[j].Sort\<close>.\<close>

definition items_less :: "FirstLevelItem \<Rightarrow> FirstLevelItem \<Rightarrow> bool" where
  "items_less a b \<longleftrightarrow> item_Sort b < item_Sort a"

text \<open>
  \<open>processDocument\<close> on values: the struct is copied, a non-nil \<open>Items\<close> is replaced
  by a copy of the same length and elements, and the copy is sorted. A nil \<open>Items\<close>
  stays nil (\<open>sort.Slice\<close> on a nil slice does nothing).
\<close>

definition processDocument :: "FirstLevelItem sorter \<Rightarrow> Doc \<Rightarrow> Doc" where
  "processDocument srt doc =
     (let processed = doc;
          processed = (case doc_Items doc of
                         Some xs \<Rightarrow> processed\<lparr>doc_Items := Some (take (length xs) xs)\<rparr>
                       | None \<Rightarrow> processed)
      in processed\<lparr>doc_Items := map_option (srt items_less) (doc_Items processed)\<rparr>)"

text \<open>
  Two sorters that meet \<open>sort_Slice_spec\<close>. \<open>insertionSort\<close> follows the insertion
  sort of Go's \<open>sort\<close> package: each element moves towards the front while it is less
  than its left neighbour (the sorted prefix is kept in reverse, its last element
  first). \<open>reversingSort\<close> sorts by the converse comparator and reverses the result.
\<close>

fun insert_back :: "('a \<Rightarrow> 'a \<Rightarrow> bool) \<Rightarrow> 'a \<Rightarrow> 'a list \<Rightarrow> 'a list" where
  "insert_back lessFn x [] = [x]"
| "insert_back lessFn x (y # ys) = (if lessFn x y then y # insert_back lessFn x ys else x # y # ys)"

definition insertionSort :: "'a sorter" where
  "insertionSort lessFn xs = rev (foldl (\<lambda>acc x. insert_back lessFn x acc) [] xs)"

definition reversingSort :: "'a sorter" where
  "reversingSort lessFn xs = rev (insertionSort (\<lambda>a b. lessFn b a) xs)"

text \<open>
  The order of equal keys is kept: for every key, the elements with that key appear in
  the output in the order they have in the input.
\<close>

definition stable_by :: "('a \<Rightarrow> int) \<Rightarrow> 'a list \<Rightarrow> 'a list \<Rightarrow> bool" where
  "stable_by f inp out \<longleftrightarrow> (\<forall>a \<in> set inp. filter (\<lambda>b. f b = f a) out = filter (\<lambda>b. f b = f a) inp)"

subsection \<open>One call of processDocumentsParallel as a transition system\<close>

text \<open>
  The call runs one main goroutine and one goroutine per admitted document. The state
  holds the position of the main goroutine, the number of tokens in the channel
  \<open>sem\<close>, the state of the goroutine of every index, the contents of the buffered
  channel \<open>results\<close>, the counter of the wait group and whether the context is done.

  A goroutine is not started, or running before its \<open>select\<close> with its copy \<open>d\<close> of the
  document, or at the deferred receive from \<open>sem\<close>, or at the deferred \<open>wg.Done()\<close>,
  or finished. The main goroutine is at the test \<open>ctx.Err() != nil\<close> at the top of the
  loop body for index \<open>i\<close>, at the \<open>select\<close> of index \<open>i\<close>, at \<open>wg.Wait()\<close>, or has
  returned.
\<close>

datatype proc_error = Cancelled | Incomplete nat nat | NilDereference

datatype task = NotStarted | Running Doc | Releasing | Finishing | Finished

datatype main_pc = LoopTop nat | Select nat | Wait | Returned "proc_error + Doc list"

record pstate =
  pc :: main_pc
  sem :: nat
  tasks :: "nat \<Rightarrow> task"
  results :: "(nat \<times> Doc) list"
  wg :: int
  ctx_done :: bool

text \<open>
  The scheduler's choices: the context is cancelled, the main goroutine takes a step,
  or the goroutine of an index takes a step. The flag of a main step says which case
  the \<open>select\<close> of the loop takes when both are ready (\<open>True\<close>: the send to
  \<open>sem\<close>). A goroutine that cannot go on (a full or empty channel, a non-zero wait
  group) stays where it is.
\<close>

datatype action = Cancel | Main bool | Task nat

text \<open>
  After \<open>wg.Wait()\<close>: the results are moved from the channel into \<open>processedMap\<close>,
  the sizes are compared and the output slice is filled by index. Reading an index
  that the map does not hold yields a nil pointer, whose dereference panics.
\<close>

definition collect :: "(nat \<times> Doc) list \<Rightarrow> (nat \<times> Doc) list" where
  "collect rs = foldl (\<lambda>m (index, doc). AList.update index doc m) [] rs"

fun fill :: "(nat \<times> Doc) list \<Rightarrow> nat list \<Rightarrow> proc_error + Doc list" where
  "fill processedMap [] = Inr []"
| "fill processedMap (i # is) =
     (case map_of processedMap i of
        None \<Rightarrow> Inl NilDereference
      | Some d \<Rightarrow> (case fill processedMap is of Inl e \<Rightarrow> Inl e | Inr ds \<Rightarrow> Inr (d # ds)))"

definition assemble :: "Doc list \<Rightarrow> (nat \<times> Doc) list \<Rightarrow> proc_error + Doc list" where
  "assemble documents processedMap =
     (if length processedMap \<noteq> length documents
      then Inl (Incomplete (length documents) (length processedMap))
      else fill processedMap [0..<length documents])"

definition finish :: "bool \<Rightarrow> Doc list \<Rightarrow> (nat \<times> Doc) list \<Rightarrow> proc_error + Doc list" where
  "finish done documents rs =
     (if done then Inl Cancelled else assemble documents (collect rs))"

text \<open>\<open>wg.Add(1)\<close> and the \<open>go\<close> statement for index \<open>i\<close>; the loop goes on to the next index.\<close>

definition spawn :: "Doc list \<Rightarrow> nat \<Rightarrow> pstate \<Rightarrow> pstate" where
  "spawn documents i s =
     s\<lparr>wg := wg s + 1, tasks := (tasks s)(i := Running (documents ! i)), pc := LoopTop (i + 1)\<rparr>"

fun main_step :: "nat \<Rightarrow> Doc list \<Rightarrow> bool \<Rightarrow> pstate \<Rightarrow> pstate" where
  "main_step ncpu documents b s =
     (case pc s of
        LoopTop i \<Rightarrow>
          if i < length documents
          then (if ctx_done s then s\<lparr>pc := Wait\<rparr> else s\<lparr>pc := Select i\<rparr>)
          else s\<lparr>pc := Wait\<rparr>
      | Select i \<Rightarrow>
          if sem s < ncpu \<and> (b \<or> \<not> ctx_done s) then spawn documents i (s\<lparr>sem := sem s + 1\<rparr>)
          else if ctx_done s then spawn documents i s
          else s
      | Wait \<Rightarrow>
          if wg s = 0 then s\<lparr>pc := Returned (finish (ctx_done s) documents (results s))\<rparr> else s
      | Returned r \<Rightarrow> s)"

fun task_step :: "FirstLevelItem sorter \<Rightarrow> Doc list \<Rightarrow> nat \<Rightarrow> pstate \<Rightarrow> pstate" where
  "task_step srt documents idx s =
     (case tasks s idx of
        NotStarted \<Rightarrow> s
      | Running d \<Rightarrow>
          if ctx_done s then s\<lparr>tasks := (tasks s)(idx := Releasing)\<rparr>
          else if length (results s) < length documents
          then s\<lparr>results := results s @ [(idx, processDocument srt d)],
                 tasks := (tasks s)(idx := Releasing)\<rparr>
          else s
      | Releasing \<Rightarrow>
          if 0 < sem s then s\<lparr>sem := sem s - 1, tasks := (tasks s)(idx := Finishing)\<rparr> else s
      | Finishing \<Rightarrow> s\<lparr>wg := wg s - 1, tasks := (tasks s)(idx := Finished)\<rparr>
      | Finished \<Rightarrow> s)"

fun step :: "FirstLevelItem sorter \<Rightarrow> nat \<Rightarrow> Doc list \<Rightarrow> pstate \<Rightarrow> action \<Rightarrow> pstate" where
  "step srt ncpu documents s Cancel = s\<lparr>ctx_done := True\<rparr>"
| "step srt ncpu documents s (Main b) = main_step ncpu documents b s"
| "step srt ncpu documents s (Task idx) = task_step srt documents idx s"

text \<open>
  The start of the call. An empty input returns at once, whatever the context;
  \<open>cancelled\<close> says whether the context is done when the call starts.
\<close>

definition init :: "bool \<Rightarrow> Doc list \<Rightarrow> pstate" where
  "init cancelled documents =
     \<lparr>pc = (if length documents = 0 then Returned (Inr documents) else LoopTop 0),
      sem = 0, tasks = (\<lambda>i. NotStarted), results = [], wg = 0, ctx_done = cancelled\<rparr>"

definition run :: "FirstLevelItem sorter \<Rightarrow> nat \<Rightarrow> bool \<Rightarrow> Doc list \<Rightarrow> action list \<Rightarrow> pstate" where
  "run srt ncpu cancelled documents sched =
     foldl (step srt ncpu documents) (init cancelled documents) sched"

text \<open>
  What the call has returned after the schedule, \<open>None\<close> while it has not returned.
  \<open>ncpu\<close> is \<open>runtime.NumCPU()\<close>.
\<close>

definition processDocumentsParallel ::
  "FirstLevelItem sorter \<Rightarrow> nat \<Rightarrow> bool \<Rightarrow> Doc list \<Rightarrow> action list \<Rightarrow> (proc_error + Doc list) option" where
  "processDocumentsParallel srt ncpu cancelled documents sched =
     (case pc (run srt ncpu cancelled documents sched) of
        Returned r \<Rightarrow> Some r
      | _ \<Rightarrow> None)"

text \<open>
  The schedule that runs every goroutine to its end as soon as it is started: for each
  index the two steps of the loop body and the three steps of the goroutine, then the
  end of the loop and the return.
\<close>

definition seq_schedule :: "nat \<Rightarrow> action list" where
  "seq_schedule n =
     concat (map (\<lambda>i. [Main False, Main False, Task i, Task i, Task i]) [0..<n])
       @ [Main False, Main False]"

text \<open>
  What holds in every state of a call on \<open>documents\<close>: only indices of the input are
  started, and exactly those below the loop index; a running goroutine holds the
  document of its index; every result in the channel was sent by a goroutine that is
  past its \<open>select\<close> and is the processed document of its index, once per index;
  while the context is not done every goroutine past its \<open>select\<close> has sent its result
  and the main goroutine waits only after it has started all of them; the wait group
  counts the goroutines that are started and not finished; a returned value is the
  cancellation error, with the context done, or the processed input.
\<close>

definition past_select :: "task \<Rightarrow> bool" where
  "past_select t \<longleftrightarrow> t = Releasing \<or> t = Finishing \<or> t = Finished"

definition active :: "(nat \<Rightarrow> task) \<Rightarrow> nat set" where
  "active ts = {i. ts i \<noteq> NotStarted \<and> ts i \<noteq> Finished}"

definition proc_inv :: "FirstLevelItem sorter \<Rightarrow> Doc list \<Rightarrow> pstate \<Rightarrow> bool" where
  "proc_inv srt documents s \<longleftrightarrow>
     (\<forall>i. tasks s i \<noteq> NotStarted \<longrightarrow> i < length documents)
   \<and> (\<forall>j. pc s = LoopTop j \<longrightarrow> j \<le> length documents \<and> (\<forall>i. tasks s i \<noteq> NotStarted \<longleftrightarrow> i < j))
   \<and> (\<forall>j. pc s = Select j \<longrightarrow> j < length documents \<and> (\<forall>i. tasks s i \<noteq> NotStarted \<longleftrightarrow> i < j))
   \<and> (pc s = Wait \<longrightarrow> ctx_done s \<or> (\<forall>i < length documents. tasks s i \<noteq> NotStarted))
   \<and> (\<forall>i d. tasks s i = Running d \<longrightarrow> d = documents ! i)
   \<and> (\<forall>i d. (i, d) \<in> set (results s)
         \<longrightarrow> past_select (tasks s i) \<and> d = processDocument srt (documents ! i))
   \<and> distinct (map fst (results s))
   \<and> (\<not> ctx_done s \<longrightarrow> (\<forall>i. past_select (tasks s i) \<longrightarrow> i \<in> fst ` set (results s)))
   \<and> wg s = int (card (active (tasks s)))
   \<and> (\<forall>r. pc s = Returned r
         \<longrightarrow> r = Inl Cancelled \<and> ctx_done s \<or> r = Inr (map (processDocument srt) documents))"

subsection \<open>States used in the proofs\<close>

text \<open>
  The state of the sequential schedule when the loop reaches index \<open>k\<close>: every
  goroutine below \<open>k\<close> has finished and left its result.
\<close>

definition seq_state :: "FirstLevelItem sorter \<Rightarrow> Doc list \<Rightarrow> nat \<Rightarrow> pstate" where
  "seq_state srt documents k =
     \<lparr>pc = LoopTop k, sem = 0, tasks = (\<lambda>i. if i < k then Finished else NotStarted),
      results = map (\<lambda>i. (i, processDocument srt (documents ! i))) [0..<k], wg = 0,
      ctx_done = False\<rparr>"

text \<open>
  The goroutines that hold a token of \<open>sem\<close>, and a bound on the steps a call that is
  not cancelled can still take: the weight of the position of the main goroutine plus
  the weights of the goroutines of all indices.
\<close>

definition holding :: "(nat \<Rightarrow> task) \<Rightarrow> nat set" where
  "holding ts = {i. (\<exists>d. ts i = Running d) \<or> ts i = Releasing}"

fun pc_weight :: "nat \<Rightarrow> main_pc \<Rightarrow> nat" where
  "pc_weight n (LoopTop i) = 2 * (n - i) + 2"
| "pc_weight n (Select i) = 2 * (n - i) + 1"
| "pc_weight n Wait = 1"
| "pc_weight n (Returned r) = 0"

fun task_weight :: "task \<Rightarrow> nat" where
  "task_weight NotStarted = 3"
| "task_weight (Running d) = 3"
| "task_weight Releasing = 2"
| "task_weight Finishing = 1"
| "task_weight Finished = 0"

definition steps_left :: "nat \<Rightarrow> pstate \<Rightarrow> nat" where
  "steps_left n s = pc_weight n (pc s) + (\<Sum>i<n. task_weight (tasks s i))"

definition uncancelled_inv :: "nat \<Rightarrow> pstate \<Rightarrow> bool" where
  "uncancelled_inv ncpu s \<longleftrightarrow>
     \<not> ctx_done s \<and> sem s = card (holding (tasks s)) \<and> sem s \<le> ncpu"

text \<open>
  A call whose context was done from the start: nothing is started, and the main
  goroutine is at the top of the loop, waiting, or has returned.
\<close>

definition idle :: "pstate \<Rightarrow> bool" where
  "idle s \<longleftrightarrow> ctx_done s \<and> (\<forall>i. tasks s i = NotStarted)
     \<and> (pc s = LoopTop 0 \<or> pc s = Wait \<or> (\<exists>r. pc s = Returned r))"

text \<open>
  A call after the loop's \<open>select\<close> took the \<open>ctx.Done()\<close> case: a goroutine
  was started without a token in \<open>sem\<close>, so \<open>sem\<close> holds fewer tokens than there
  are goroutines that have yet to receive one from it; the main goroutine is at the top
  of the loop or at \<open>wg.Wait()\<close>.
\<close>

definition starved :: "FirstLevelItem sorter \<Rightarrow> Doc list \<Rightarrow> pstate \<Rightarrow> bool" where
  "starved srt documents s \<longleftrightarrow>
     proc_inv srt documents s \<and> ctx_done s \<and> sem s < card (holding (tasks s))
   \<and> (\<forall>i. pc s \<noteq> Select i) \<and> (\<forall>r. pc s \<noteq> Returned r)"

text \<open>A document with two items of equal sort key, and the same document with the two swapped.\<close>

definition tie_doc :: Doc where
  "tie_doc = mk_doc ''doc-1'' (Some [mk_item ''item-1'' 7, mk_item ''item-2'' 7])"

definition tie_doc_swapped :: Doc where
  "tie_doc_swapped = mk_doc ''doc-1'' (Some [mk_item ''item-2'' 7, mk_item ''item-1'' 7])"


subsection \<open>Go's sort.Slice on short slices\<close>

text \<open>
  \<open>sort.Slice\<close> runs \<open>pdqsort_func\<close> of Go's \<open>sort\<close> package (\<open>sort/zsortfunc.go\<close> in
  Go 1.25, the version the Dockerfile builds with). The functions below follow the
  path it takes on a slice of 13 elements: one round of \<open>choosePivot_func\<close>,
  \<open>partialInsertionSort_func\<close> and \<open>partition_func\<close>, after which both parts hold
  at most 12 elements and are sorted by \<open>insertionSort_func\<close>. A slice of at most 12
  elements is sorted by \<open>insertionSort_func\<close> alone. The slice is a list,
  \<open>data.Less(i, j)\<close> is \<open>lessFn (xs ! i) (xs ! j)\<close> and \<open>data.Swap(i, j)\<close> is \<open>swap\<close>.
  Longer slices take other paths of \<open>pdqsort_func\<close>, which are not followed here;
  \<open>sort_Slice_13\<close> sorts them by insertion.
\<close>

definition swap :: "'a list \<Rightarrow> nat \<Rightarrow> nat \<Rightarrow> 'a list" where
  "swap xs i j = xs[i := xs ! j, j := xs ! i]"

text \<open>\<open>insertionSort_func(data, a, b)\<close> sorts \<open>data[a:b]\<close> by insertion.\<close>

definition insertionSort_func :: "('a \<Rightarrow> 'a \<Rightarrow> bool) \<Rightarrow> 'a list \<Rightarrow> nat \<Rightarrow> nat \<Rightarrow> 'a list" where
  "insertionSort_func lessFn xs a b =
     take a xs @ insertionSort lessFn (take (b - a) (drop a xs)) @ drop b xs"

definition order2_func ::
  "('a \<Rightarrow> 'a \<Rightarrow> bool) \<Rightarrow> 'a list \<Rightarrow> nat \<Rightarrow> nat \<Rightarrow> nat \<Rightarrow> nat \<times> nat \<times> nat" where
  "order2_func lessFn xs a b swaps =
     (if lessFn (xs ! b) (xs ! a) then (b, a, swaps + 1) else (a, b, swaps))"

definition median_func ::
  "('a \<Rightarrow> 'a \<Rightarrow> bool) \<Rightarrow> 'a list \<Rightarrow> nat \<Rightarrow> nat \<Rightarrow> nat \<Rightarrow> nat \<Rightarrow> nat \<times> nat" where
  "median_func lessFn xs a b c swaps =
     (let (a, b, swaps) = order2_func lessFn xs a b swaps;
          (b, c, swaps) = order2_func lessFn xs b c swaps;
          (a, b, swaps) = order2_func lessFn xs a b swaps
      in (b, swaps))"

datatype sortedHint = unknownHint | increasingHint | decreasingHint

text \<open>
  \<open>choosePivot_func\<close> on fewer than 50 elements (from 50 on it takes the median of
  three medians): the element at the middle, or from 8 elements on the median of the
  elements at the three quarter positions, and the hint drawn from the number of swaps.
\<close>

definition choosePivot_func ::
  "('a \<Rightarrow> 'a \<Rightarrow> bool) \<Rightarrow> 'a list \<Rightarrow> nat \<Rightarrow> nat \<Rightarrow> nat \<times> sortedHint" where
  "choosePivot_func lessFn xs a b =
     (let l = b - a;
          i = a + l div 4 * 1;
          j = a + l div 4 * 2;
          k = a + l div 4 * 3;
          (j, swaps) = (if 8 \<le> l then median_func lessFn xs i j k 0 else (j, 0))
      in (j, if swaps = 0 then increasingHint
             else if swaps = 4 * 3 then decreasingHint else unknownHint))"

text \<open>
  \<open>partialInsertionSort_func\<close> on fewer than 50 elements: it moves nothing and
  reports whether no element is less than its left neighbour.
\<close>

definition partialInsertionSort_func ::
  "('a \<Rightarrow> 'a \<Rightarrow> bool) \<Rightarrow> 'a list \<Rightarrow> nat \<Rightarrow> nat \<Rightarrow> bool" where
  "partialInsertionSort_func lessFn xs a b \<longleftrightarrow>
     list_all (\<lambda>i. \<not> lessFn (xs ! i) (xs ! (i - 1))) [a + 1..<b]"

text \<open>
  The two scans of \<open>partition_func\<close>, \<open>for i <= j && data.Less(i, a) { i++ }\<close> and
  \<open>for i <= j && !data.Less(j, a) { j-- }\<close>, and its main loop.
\<close>

function scan_up :: "('a \<Rightarrow> 'a \<Rightarrow> bool) \<Rightarrow> 'a list \<Rightarrow> nat \<Rightarrow> int \<Rightarrow> int \<Rightarrow> int" where
  "scan_up lessFn xs a i j =
     (if i \<le> j \<and> lessFn (xs ! nat i) (xs ! a) then scan_up lessFn xs a (i + 1) j else i)"
  by pat_completeness auto
termination
  by (relation "measure (\<lambda>(lessFn, xs, a, i, j). nat (j + 1 - i))") auto

function scan_down :: "('a \<Rightarrow> 'a \<Rightarrow> bool) \<Rightarrow> 'a list \<Rightarrow> nat \<Rightarrow> int \<Rightarrow> int \<Rightarrow> int" where
  "scan_down lessFn xs a i j =
     (if i \<le> j \<and> \<not> lessFn (xs ! nat j) (xs ! a) then scan_down lessFn xs a i (j - 1) else j)"
  by pat_completeness auto
termination
  by (relation "measure (\<lambda>(lessFn, xs, a, i, j). nat (j + 1 - i))") auto

declare scan_up.simps [simp del] scan_down.simps [simp del]

function partition_loop ::
  "('a \<Rightarrow> 'a \<Rightarrow> bool) \<Rightarrow> 'a list \<Rightarrow> nat \<Rightarrow> int \<Rightarrow> int \<Rightarrow> 'a list \<times> int" where
  "partition_loop lessFn xs a i j =
     (let i' = scan_up lessFn xs a i j;
          j' = scan_down lessFn xs a i' j
      in if j' < i' then (xs, j')
         else partition_loop lessFn (swap xs (nat i') (nat j')) a (i' + 1) (j' - 1))"
  by pat_completeness auto
termination
proof (relation "measure (\<lambda>(lessFn, xs, a, i, j). nat (j + 1 - i))", goal_cases)
  case 1
  then show ?case by simp
next
  case (2 lessFn xs a i j i' j')
  have up: "i \<le> scan_up lessFn xs a i j" for i
  proof (induction lessFn xs a i j rule: scan_up.induct)
    case (1 lessFn xs a i j)
    show ?case
    proof (cases "i \<le> j \<and> lessFn (xs ! nat i) (xs ! a)")
      case True
      then have "i + 1 \<le> scan_up lessFn xs a (i + 1) j"
        by (rule "1.IH")
      moreover have "scan_up lessFn xs a i j = scan_up lessFn xs a (i + 1) j"
        using True by (subst scan_up.simps) simp
      ultimately show ?thesis by simp
    next
      case False
      then have "scan_up lessFn xs a i j = i"
        by (subst scan_up.simps) auto
      then show ?thesis by simp
    qed
  qed
  have down: "scan_down lessFn xs a i j \<le> j" for i j
  proof (induction lessFn xs a i j rule: scan_down.induct)
    case (1 lessFn xs a i j)
    show ?case
    proof (cases "i \<le> j \<and> \<not> lessFn (xs ! nat j) (xs ! a)")
      case True
      then have "scan_down lessFn xs a i (j - 1) \<le> j - 1"
        by (rule "1.IH")
      moreover have "scan_down lessFn xs a i j = scan_down lessFn xs a i (j - 1)"
        using True by (subst scan_down.simps) simp
      ultimately show ?thesis by simp
    next
      case False
      then have "scan_down lessFn xs a i j = j"
        by (subst scan_down.simps) auto
      then show ?thesis by simp
    qed
  qed
  show ?case
    using 2 up [of i] down [of i' j] by auto
qed

declare partition_loop.simps [simp del]

definition partition_func ::
  "('a \<Rightarrow> 'a \<Rightarrow> bool) \<Rightarrow> 'a list \<Rightarrow> nat \<Rightarrow> nat \<Rightarrow> nat \<Rightarrow> 'a list \<times> nat \<times> bool" where
  "partition_func lessFn xs a b pivot =
     (let xs = swap xs a pivot;
          i = scan_up lessFn xs a (int a + 1) (int b - 1);
          j = scan_down lessFn xs a i (int b - 1)
      in if j < i then (swap xs (nat j) a, nat j, True)
         else (let (xs, j) = partition_loop lessFn (swap xs (nat i) (nat j)) a (i + 1) (j - 1)
               in (swap xs (nat j) a, nat j, False)))"

definition sort_Slice_13 :: "'a sorter" where
  "sort_Slice_13 lessFn xs =
     (let n = length xs
      in if n = 13
         then (let (pivot, hint) = choosePivot_func lessFn xs 0 n
               in if hint = increasingHint \<and> partialInsertionSort_func lessFn xs 0 n then xs
                  else (let (xs, mid, alreadyPartitioned) = partition_func lessFn xs 0 n pivot
                        in insertionSort_func lessFn (insertionSort_func lessFn xs 0 mid) (mid + 1) n))
         else insertionSort_func lessFn xs 0 n)"

text \<open>
  A document of 13 items: the first has sort key 1, the twelve after it have sort key
  2. In the output of \<open>sort_Slice_13\<close> the item at position 6 comes first.
\<close>

definition tie13_doc :: Doc where
  "tie13_doc = mk_doc ''doc-13''
     (Some [mk_item ''item-0'' 1, mk_item ''item-1'' 2, mk_item ''item-2'' 2,
            mk_item ''item-3'' 2, mk_item ''item-4'' 2, mk_item ''item-5'' 2,
            mk_item ''item-6'' 2, mk_item ''item-7'' 2, mk_item ''item-8'' 2,
            mk_item ''item-9'' 2, mk_item ''item-10'' 2, mk_item ''item-11'' 2,
            mk_item ''item-12'' 2])"

definition tie13_doc_sorted :: Doc where
  "tie13_doc_sorted = mk_doc ''doc-13''
     (Some [mk_item ''item-6'' 2, mk_item ''item-1'' 2, mk_item ''item-2'' 2,
            mk_item ''item-3'' 2, mk_item ''item-4'' 2, mk_item ''item-5'' 2,
            mk_item ''item-7'' 2, mk_item ''item-8'' 2, mk_item ''item-9'' 2,
            mk_item ''item-10'' 2, mk_item ''item-11'' 2, mk_item ''item-12'' 2,
            mk_item ''item-0'' 1])"

section \<open>processDocument on a store\<close>

text \<open>
  For the question of what \<open>processDocument\<close> writes to, pointers and slices are
  modelled with an explicit store. A slice is nil or a header: the address of its
  backing array, the offset of its first element in that array and its length (the
  capacity plays no role, nothing is appended). The store maps the addresses of backing
  arrays to their elements and the addresses of document structs to the structs, whose
  \<open>Items\<close> field is a slice header; every address from \<open>h_next\<close> on is free. The nested
  \<open>SecondLevel\<close> slices are never written to and stay values.
\<close>

type_synonym addr = nat

datatype slice = NilSlice | Slice addr nat nat

type_synonym HDoc = "slice Document"

record store =
  h_arrays :: "addr \<rightharpoonup> FirstLevelItem list"
  h_docs :: "addr \<rightharpoonup> HDoc"
  h_next :: addr

text \<open>
  A slice lies within an allocated array, as every Go slice does; allocated addresses
  lie below \<open>h_next\<close>.
\<close>

definition slice_ok :: "store \<Rightarrow> slice \<Rightarrow> bool" where
  "slice_ok h sl =
     (case sl of
        NilSlice \<Rightarrow> True
      | Slice a off n \<Rightarrow> (case h_arrays h a of None \<Rightarrow> False | Some arr \<Rightarrow> off + n \<le> length arr))"

definition wf_store :: "store \<Rightarrow> bool" where
  "wf_store h \<longleftrightarrow> (\<forall>a \<in> dom (h_arrays h). a < h_next h) \<and> (\<forall>p \<in> dom (h_docs h). p < h_next h)"

text \<open>The elements of a slice, \<open>None\<close> for the nil slice.\<close>

definition slice_read :: "store \<Rightarrow> slice \<Rightarrow> FirstLevelItem list option" where
  "slice_read h sl =
     (case sl of
        NilSlice \<Rightarrow> None
      | Slice a off n \<Rightarrow> Some (take n (drop off (case h_arrays h a of None \<Rightarrow> [] | Some arr \<Rightarrow> arr))))"

definition slice_len :: "slice \<Rightarrow> nat" where
  "slice_len sl = (case sl of NilSlice \<Rightarrow> 0 | Slice a off n \<Rightarrow> n)"

text \<open>The document a struct stands for: the struct with its \<open>Items\<close> read from the store.\<close>

definition read_doc :: "store \<Rightarrow> HDoc \<Rightarrow> Doc" where
  "read_doc h d =
     \<lparr>doc_ID = doc_ID d, doc_Title = doc_Title d, doc_Description = doc_Description d,
      doc_CreatedAt = doc_CreatedAt d, doc_UpdatedAt = doc_UpdatedAt d,
      doc_Items = slice_read h (doc_Items d), doc_Internal = doc_Internal d\<rparr>"

text \<open>Writing the elements \<open>xs\<close> into an array from position \<open>off\<close> on.\<close>

definition write_range :: "'a list \<Rightarrow> nat \<Rightarrow> 'a list \<Rightarrow> 'a list" where
  "write_range arr off xs = take off arr @ xs @ drop (off + length xs) arr"

definition zero_item :: FirstLevelItem where
  "zero_item = mk_item [] 0"

text \<open>\<open>make([]model.FirstLevelItem, n)\<close>: a new array of \<open>n\<close> zero items and the slice of all of it.\<close>

definition make_items :: "store \<Rightarrow> nat \<Rightarrow> store \<times> slice" where
  "make_items h n =
     (h\<lparr>h_arrays := (h_arrays h)(h_next h \<mapsto> replicate n zero_item), h_next := h_next h + 1\<rparr>,
      Slice (h_next h) 0 n)"

text \<open>\<open>copy(dst, src)\<close>: as many elements as the shorter of the two slices holds.\<close>

definition copy_items :: "store \<Rightarrow> slice \<Rightarrow> slice \<Rightarrow> store" where
  "copy_items h dst src =
     (case dst of
        NilSlice \<Rightarrow> h
      | Slice a off n \<Rightarrow>
          (case h_arrays h a of
             None \<Rightarrow> h
           | Some arr \<Rightarrow>
               h\<lparr>h_arrays := (h_arrays h)
                    (a \<mapsto> write_range arr off (take (min n (slice_len src)) (slice_elems (slice_read h src))))\<rparr>))"

text \<open>\<open>sort.Slice\<close> on a slice of the store: the elements of the slice are sorted in place.\<close>

definition sort_Slice_h ::
  "FirstLevelItem sorter \<Rightarrow> store \<Rightarrow> slice \<Rightarrow> (FirstLevelItem \<Rightarrow> FirstLevelItem \<Rightarrow> bool) \<Rightarrow> store" where
  "sort_Slice_h srt h sl lessFn =
     (case sl of
        NilSlice \<Rightarrow> h
      | Slice a off n \<Rightarrow>
          (case h_arrays h a of
             None \<Rightarrow> h
           | Some arr \<Rightarrow>
               h\<lparr>h_arrays := (h_arrays h)(a \<mapsto> write_range arr off (srt lessFn (take n (drop off arr))))\<rparr>))"

text \<open>
  \<open>processDocument\<close> on the store, \<open>None\<close> for the panic on a nil or dangling pointer:
  \<open>processed := *doc\<close> copies the struct, slice header included; a non-nil \<open>Items\<close> is
  replaced by a new slice that the elements are copied into; \<open>processed.Items\<close> is
  sorted in place; the result is the address of \<open>processed\<close>, a new struct.
\<close>

definition processDocument_h :: "FirstLevelItem sorter \<Rightarrow> store \<Rightarrow> addr \<Rightarrow> (store \<times> addr) option" where
  "processDocument_h srt h p =
     (case h_docs h p of
        None \<Rightarrow> None
      | Some doc \<Rightarrow>
          (let processed = doc;
               (h1, processed) =
                  (if doc_Items doc \<noteq> NilSlice
                   then (let (h', sl) = make_items h (slice_len (doc_Items doc))
                         in (copy_items h' sl (doc_Items doc), processed\<lparr>doc_Items := sl\<rparr>))
                   else (h, processed));
               h2 = sort_Slice_h srt h1 (doc_Items processed) items_less;
               p' = h_next h2
           in Some (h2\<lparr>h_docs := (h_docs h2)(p' \<mapsto> processed), h_next := p' + 1\<rparr>, p')))"

text \<open>
  A store for the examples: \<open>doc_1\<close> of the service test at address 1, its three items
  in the array at address 0.
\<close>

definition store_1 :: store where
  "store_1 =
     \<lparr>h_arrays = [0 \<mapsto> [mk_item ''item-1'' 10, mk_item ''item-2'' 50, mk_item ''item-3'' 5]],
      h_docs = [1 \<mapsto> mk_doc ''doc-1'' (Slice 0 0 3)],
      h_next = 2\<rparr>"

section \<open>Properties of the pagination parameters\<close>

lemma Validate_Page: "Page (Validate p) = (if Page p <s 1 then 1 else Page p)"
  by (simp add: Validate_def Let_def)

lemma Validate_PerPage:
  "PerPage (Validate p) =
     (if PerPage p <s 1 then 10 else if 100 <s PerPage p then 100 else PerPage p)"
  by (simp add: Validate_def Let_def)

lemma Validate_Page_ge: "1 \<le>s Page (Validate p)"
  by (simp add: Validate_Page word_sle_eq word_sless_alt)

lemma Validate_PerPage_range: "1 \<le>s PerPage (Validate p) \<and> PerPage (Validate p) \<le>s 100"
  by (simp add: Validate_PerPage word_sle_eq word_sless_alt)

lemma sint_mult_exact:
  fixes a b :: go_int
  assumes "- (2 ^ 63) \<le> sint a * sint b" "sint a * sint b < 2 ^ 63"
  shows "sint (a * b) = sint a * sint b"
  using assms
  by (simp add: sint_word_ariths signed_take_bit_int_eq_self)

lemma sint_pred:
  fixes a :: go_int
  assumes "1 \<le>s a"
  shows "sint (a - 1) = sint a - 1"
  using assms sint_lt [of a] sint_ge [of a]
  by (simp add: sint_word_ariths signed_take_bit_int_eq_self word_sle_eq)

lemma GetOffset_exact_iff:
  fixes p :: PaginationParams
  assumes pg: "1 \<le>s Page p" and pp: "1 \<le>s PerPage p"
  shows "sint (GetOffset p) = (sint (Page p) - 1) * sint (PerPage p)
          \<longleftrightarrow> (sint (Page p) - 1) * sint (PerPage p) < 2 ^ 63"
proof
  assume "sint (GetOffset p) = (sint (Page p) - 1) * sint (PerPage p)"
  moreover have "sint (GetOffset p) < 2 ^ 63"
    using sint_lt [of "GetOffset p"] by simp
  ultimately show "(sint (Page p) - 1) * sint (PerPage p) < 2 ^ 63" by simp
next
  assume b: "(sint (Page p) - 1) * sint (PerPage p) < 2 ^ 63"
  have p1: "sint (Page p - 1) = sint (Page p) - 1"
    using pg by (rule sint_pred)
  have "0 \<le> sint (Page p) - 1" "0 \<le> sint (PerPage p)"
    using pg pp by (simp_all add: word_sle_eq)
  then have "0 \<le> (sint (Page p) - 1) * sint (PerPage p)"
    by (rule mult_nonneg_nonneg)
  then have "- (2 ^ 63) \<le> sint (Page p - 1) * sint (PerPage p)"
    using p1 by simp
  moreover have "sint (Page p - 1) * sint (PerPage p) < 2 ^ 63"
    using b p1 by simp
  ultimately have "sint ((Page p - 1) * PerPage p) = sint (Page p - 1) * sint (PerPage p)"
    by (rule sint_mult_exact)
  then show "sint (GetOffset p) = (sint (Page p) - 1) * sint (PerPage p)"
    using p1 by (simp add: GetOffset_def)
qed

text \<open>
  Claim C9, as amended. \<open>Service.List\<close> queries the store with the validated
  parameters: the validated \<open>Page\<close> is at least 1 (a page below 1 becomes 1, any other
  page is kept), the validated \<open>PerPage\<close> lies between 1 and 100 (below 1 it becomes
  10, above 100 it becomes 100, otherwise it is kept), the limit is the validated
  \<open>PerPage\<close> and the offset is \<open>(Page - 1) * PerPage\<close> in Go's wrapping 64-bit
  arithmetic. The offset is the product of the two numbers exactly when that product
  is below \<open>2 ^ 63\<close>.
\<close>

theorem List_pagination_clamped:
  "Service_List_query p =
     \<lparr>q_Limit = PerPage (Validate p), q_Offset = (Page (Validate p) - 1) * PerPage (Validate p)\<rparr>
   \<and> 1 \<le>s Page (Validate p)
   \<and> Page (Validate p) = (if Page p <s 1 then 1 else Page p)
   \<and> 1 \<le>s PerPage (Validate p) \<and> PerPage (Validate p) \<le>s 100
   \<and> PerPage (Validate p) =
        (if PerPage p <s 1 then 10 else if 100 <s PerPage p then 100 else PerPage p)
   \<and> (sint (q_Offset (Service_List_query p))
          = (sint (Page (Validate p)) - 1) * sint (PerPage (Validate p))
        \<longleftrightarrow> (sint (Page (Validate p)) - 1) * sint (PerPage (Validate p)) < 2 ^ 63)"
proof -
  have "sint (GetOffset (Validate p)) = (sint (Page (Validate p)) - 1) * sint (PerPage (Validate p))
          \<longleftrightarrow> (sint (Page (Validate p)) - 1) * sint (PerPage (Validate p)) < 2 ^ 63"
    using Validate_Page_ge Validate_PerPage_range by (intro GetOffset_exact_iff) simp_all
  moreover have "Service_List_query p =
     \<lparr>q_Limit = PerPage (Validate p), q_Offset = (Page (Validate p) - 1) * PerPage (Validate p)\<rparr>"
    by (simp add: Service_List_query_def Storage_List_query_def GetOffset_def)
  moreover have "q_Offset (Service_List_query p) = GetOffset (Validate p)"
    by (simp add: Service_List_query_def Storage_List_query_def)
  ultimately show ?thesis
    using Validate_Page_ge [of p] Validate_PerPage_range [of p] Validate_Page [of p]
      Validate_PerPage [of p]
    by simp
qed

theorem List_pagination_clamped_witness:
  "Service_List_query \<lparr>Page = 0, PerPage = 250\<rparr> = \<lparr>q_Limit = 100, q_Offset = 0\<rparr>
   \<and> Validate \<lparr>Page = 0, PerPage = 250\<rparr> = \<lparr>Page = 1, PerPage = 100\<rparr>"
  using List_pagination_clamped [of "\<lparr>Page = 0, PerPage = 250\<rparr>"]
  by (simp add: word_sless_alt Validate_def)

text \<open>
  Claim C9 as it is written, with the offset read as the product of the two numbers,
  fails for a page so large that the 64-bit product wraps around: page \<open>2 ^ 62\<close> with
  10 documents per page.
\<close>

theorem List_offset_overflow_counterexample:
  "sint (q_Offset (Service_List_query \<lparr>Page = 4611686018427387904, PerPage = 10\<rparr>))
     \<noteq> (sint (Page (Validate \<lparr>Page = 4611686018427387904, PerPage = 10\<rparr>)) - 1)
         * sint (PerPage (Validate \<lparr>Page = 4611686018427387904, PerPage = 10\<rparr>))"
  by (simp add: Service_List_query_def Storage_List_query_def GetOffset_def
      Validate_Page Validate_PerPage word_sless_alt)

section \<open>Properties of the cache\<close>

lemma length_delete_present:
  assumes "distinct (map fst al)" "k \<in> fst ` set al"
  shows "Suc (length (AList.delete k al)) = length al"
proof -
  have "length (AList.delete k al) = length (map fst (AList.delete k al))" by simp
  also have "\<dots> = length (remove1 k (map fst al))"
    using assms(1) by (simp add: AList.delete_keys distinct_remove1_removeAll)
  also have "\<dots> = length al - 1"
    using assms(2) by (simp add: length_remove1)
  finally show ?thesis
    using assms(2) by (cases al) auto
qed

lemma cleanup_delete_map_of:
  "map_of (cleanup_delete its keys now) k =
     (case map_of its k of
        Some item \<Rightarrow> if k \<in> set keys \<and> After now (expiresAt item) then None else Some item
      | None \<Rightarrow> None)"
proof (induction keys arbitrary: its)
  case Nil
  then show ?case by (simp split: option.splits)
next
  case (Cons a keys)
  show ?case
    by (auto simp: Cons.IH AList.delete_conv' split: option.splits)
qed

lemma cleanup_delete_distinct:
  "distinct (map fst its) \<Longrightarrow> distinct (map fst (cleanup_delete its keys now))"
  by (induction keys arbitrary: its) (auto simp: AList.distinct_delete split: option.splits)

lemma cleanup_delete_length:
  "length (cleanup_delete its keys now) \<le> length its"
proof (induction keys arbitrary: its)
  case Nil
  then show ?case by simp
next
  case (Cons a keys)
  have "length (AList.delete a its) \<le> length its" by (rule AList.length_delete_le)
  then show ?case
    using Cons.IH [of "AList.delete a its"] Cons.IH [of its]
    by (auto split: option.splits)
qed

lemma cleanup_collect_set:
  "k \<in> set (cleanup_collect c now) \<longleftrightarrow> (\<exists>item. (k, item) \<in> set (items c) \<and> After now (expiresAt item))"
  by (force simp: cleanup_collect_def)


lemma map_of_distinct_iff:
  "distinct (map fst al) \<Longrightarrow> (k, v) \<in> set al \<longleftrightarrow> map_of al k = Some v"
  by (auto dest: map_of_SomeD)

lemma Cache_cleanup_map_of:
  "map_of (items (Cache_cleanup c now)) k =
     (case map_of (items c) k of
        Some item \<Rightarrow> if After now (expiresAt item) then None else Some item
      | None \<Rightarrow> None)"
proof (cases "map_of (items c) k")
  case None
  then show ?thesis
    by (simp add: Cache_cleanup_def Let_def cleanup_delete_map_of)
next
  case (Some item)
  show ?thesis
  proof (cases "After now (expiresAt item)")
    case True
    have "(k, item) \<in> set (items c)"
      using Some by (rule map_of_SomeD)
    then have "k \<in> set (cleanup_collect c now)"
      using True cleanup_collect_set by blast
    then have "0 < length (cleanup_collect c now)"
      by (cases "cleanup_collect c now") auto
    then show ?thesis
      using Some True \<open>k \<in> set (cleanup_collect c now)\<close>
      by (simp add: Cache_cleanup_def Let_def cleanup_delete_map_of)
  next
    case False
    then show ?thesis
      using Some by (simp add: Cache_cleanup_def Let_def cleanup_delete_map_of)
  qed
qed

text \<open>
  Claim C8. One run of the cleanup sweep at clock reading \<open>now\<close> removes every entry
  whose expiry lies before \<open>now\<close>, whether or not a \<open>Get\<close> was ever issued on it, and
  keeps every entry whose expiry has not passed at \<open>now\<close>.
\<close>

theorem cleanup_removes_exactly_expired:
  "(\<forall>item. map_of (items c) k = Some item \<and> After now (expiresAt item)
       \<longrightarrow> map_of (items (Cache_cleanup c now)) k = None)
   \<and> (\<forall>item. map_of (items c) k = Some item \<and> \<not> After now (expiresAt item)
       \<longrightarrow> map_of (items (Cache_cleanup c now)) k = Some item)
   \<and> (map_of (items c) k = None \<longrightarrow> map_of (items (Cache_cleanup c now)) k = None)"
  by (simp add: Cache_cleanup_map_of)

lemma Get_expire_map_of:
  "map_of (items (Get_expire c key now)) k =
     (case map_of (items c) k of
        Some item \<Rightarrow> if k = key \<and> After now (expiresAt item) then None else Some item
      | None \<Rightarrow> None)"
  by (auto simp: Get_expire_def AList.delete_conv' split: option.splits)

theorem cleanup_removes_exactly_expired_witness:
  "map_of (items (Cache_cleanup (Cache_Set (Cache_Set (Cache_New 5 60 2) ''a'' doc_1 100 0)
                                    ''b'' doc_2 103 0) 107)) ''a'' = None
   \<and> map_of (items (Cache_cleanup (Cache_Set (Cache_Set (Cache_New 5 60 2) ''a'' doc_1 100 0)
                                    ''b'' doc_2 103 0) 107)) ''b''
        = Some \<lparr>document = doc_2, expiresAt = 108\<rparr>"
proof -
  have m: "items (Cache_Set (Cache_Set (Cache_New 5 60 2) ''a'' doc_1 100 0) ''b'' doc_2 103 0)
             = [(''a'', \<lparr>document = doc_1, expiresAt = 105\<rparr>),
                (''b'', \<lparr>document = doc_2, expiresAt = 108\<rparr>)]"
    by (simp add: Cache_Set_def Cache_New_def Let_def)
  show ?thesis
    using cleanup_removes_exactly_expired
        [of "Cache_Set (Cache_Set (Cache_New 5 60 2) ''a'' doc_1 100 0) ''b'' doc_2 103 0" "''a''" 107]
      cleanup_removes_exactly_expired
        [of "Cache_Set (Cache_Set (Cache_New 5 60 2) ''a'' doc_1 100 0) ''b'' doc_2 103 0" "''b''" 107]
    by (simp add: m After_def)
qed

text \<open>
  Claim C3. \<open>Get\<close> returns not-found when the key has no entry; when the entry's
  expiry has passed at the lookup it returns not-found and the entry is gone from
  the map afterwards, every other key being untouched; and a document that \<open>Get\<close>
  returns comes from an entry whose expiry is not in the past. The two clock readings
  of a lookup are taken in this order from Go's monotonic clock. Whatever the map holds
  when the write-locked section runs, no entry for the key that is expired at that
  section's reading is left behind.
\<close>

theorem Get_lazy_expiry:
  assumes "now1 \<le> now2"
  shows "(map_of (items c) key = None \<longrightarrow> Cache_Get c key now1 now2 = (c, None))
   \<and> (\<forall>item. map_of (items c) key = Some item \<and> After now1 (expiresAt item)
        \<longrightarrow> snd (Cache_Get c key now1 now2) = None
          \<and> map_of (items (fst (Cache_Get c key now1 now2))) key = None
          \<and> (\<forall>k. k \<noteq> key
               \<longrightarrow> map_of (items (fst (Cache_Get c key now1 now2))) k = map_of (items c) k))
   \<and> (\<forall>doc. snd (Cache_Get c key now1 now2) = Some doc
        \<longrightarrow> (\<exists>item. map_of (items c) key = Some item \<and> document item = doc
               \<and> \<not> After now1 (expiresAt item)))
   \<and> (\<forall>c2 item. map_of (items (Get_expire c2 key now2)) key = Some item
        \<longrightarrow> \<not> After now2 (expiresAt item))"
proof -
  have mono: "After now2 t" if "After now1 t" for t
    using that assms by (simp add: After_def)
  show ?thesis
    by (auto simp: Cache_Get_def Get_expire_map_of mono split: option.splits if_splits)
qed

theorem Get_lazy_expiry_witness:
  "snd (Cache_Get (Cache_Set (Cache_New 5 60 2) ''doc-1'' doc_1 100 0) ''doc-1'' 106 107) = None
   \<and> map_of (items (fst (Cache_Get (Cache_Set (Cache_New 5 60 2) ''doc-1'' doc_1 100 0)
                          ''doc-1'' 106 107))) ''doc-1'' = None
   \<and> Cache_Get (Cache_New 5 60 2) ''doc-1'' 106 107 = (Cache_New 5 60 2, None)"
proof -
  have le: "(106::int) \<le> 107" by simp
  have m: "map_of (items (Cache_Set (Cache_New 5 60 2) ''doc-1'' doc_1 100 0)) ''doc-1''
             = Some \<lparr>document = doc_1, expiresAt = 105\<rparr>"
    by (simp add: Cache_Set_def Cache_New_def Let_def)
  have e: "map_of (items (Cache_New 5 60 2)) ''doc-1'' = None"
    by (simp add: Cache_New_def)
  show ?thesis
    using Get_lazy_expiry [OF le, of "Cache_Set (Cache_New 5 60 2) ''doc-1'' doc_1 100 0" "''doc-1''"]
      Get_lazy_expiry [OF le, of "Cache_New 5 60 2" "''doc-1''"] m e
    by (simp add: After_def)
qed


lemma length_update:
  "length (AList.update k v al) = (if k \<in> fst ` set al then length al else Suc (length al))"
  by (induction al) auto

lemma range_first_resident:
  assumes "its \<noteq> []"
  shows "\<exists>v. range_first its r = Some v \<and> v \<in> fst ` set its"
proof -
  have "r mod length its < length its"
    using assms by simp
  then have "its ! (r mod length its) \<in> set its"
    by (rule nth_mem)
  then have "fst (its ! (r mod length its)) \<in> fst ` set its"
    by (rule imageI)
  then show ?thesis
    using assms by (simp add: range_first_def)
qed

lemma range_first_None: "range_first its r = None \<longleftrightarrow> its = []"
  by (simp add: range_first_def)

lemma Cache_Set_items:
  "items (Cache_Set c key doc now r) =
     AList.update key \<lparr>document = doc, expiresAt = now + ttl c\<rparr>
       (if map_of (items c) key = None \<and> 0 < capacity c \<and> capacity c \<le> int (length (items c))
        then AList.delete (the (range_first (items c) r)) (items c) else items c)"
proof -
  have "items c \<noteq> []" if "0 < capacity c" "capacity c \<le> int (length (items c))"
    using that by auto
  then have "range_first (items c) r \<noteq> None"
    if "0 < capacity c" "capacity c \<le> int (length (items c))"
    using that by (simp add: range_first_None)
  then show ?thesis
    by (auto simp: Cache_Set_def Let_def Cache_evictRandom_def split: option.splits)
qed

lemma Cache_Set_map_of_present:
  assumes "map_of (items c) key \<noteq> None"
  shows "map_of (items (Cache_Set c key doc now r))
           = (map_of (items c))(key \<mapsto> \<lparr>document = doc, expiresAt = now + ttl c\<rparr>)"
  using assms by (auto simp: Cache_Set_items AList.update_conv')

lemma Cache_Set_length_present:
  assumes "map_of (items c) key \<noteq> None"
  shows "length (items (Cache_Set c key doc now r)) = length (items c)"
proof -
  have "key \<in> fst ` set (items c)"
    using assms by (simp add: map_of_eq_None_iff)
  then show ?thesis
    using assms by (auto simp: Cache_Set_items length_update)
qed

lemma Cache_Set_map_of_below:
  assumes "map_of (items c) key = None" "\<not> (0 < capacity c \<and> capacity c \<le> int (length (items c)))"
  shows "map_of (items (Cache_Set c key doc now r))
           = (map_of (items c))(key \<mapsto> \<lparr>document = doc, expiresAt = now + ttl c\<rparr>)"
    and "length (items (Cache_Set c key doc now r)) = Suc (length (items c))"
proof -
  have "key \<notin> fst ` set (items c)"
    using assms(1) by (simp add: map_of_eq_None_iff)
  then show "length (items (Cache_Set c key doc now r)) = Suc (length (items c))"
    using assms by (auto simp: Cache_Set_items length_update)
  show "map_of (items (Cache_Set c key doc now r))
           = (map_of (items c))(key \<mapsto> \<lparr>document = doc, expiresAt = now + ttl c\<rparr>)"
    using assms by (auto simp: Cache_Set_items AList.update_conv')
qed

lemma Cache_Set_map_of_full:
  assumes "map_of (items c) key = None" "0 < capacity c" "capacity c \<le> int (length (items c))"
  shows "\<exists>v. range_first (items c) r = Some v \<and> v \<in> fst ` set (items c)
           \<and> map_of (items (Cache_Set c key doc now r))
               = ((map_of (items c))(v := None))(key \<mapsto> \<lparr>document = doc, expiresAt = now + ttl c\<rparr>)
           \<and> (distinct (map fst (items c))
                \<longrightarrow> length (items (Cache_Set c key doc now r)) = length (items c))"
proof -
  have ne: "items c \<noteq> []"
    using assms(2,3) by auto
  then obtain v where v: "range_first (items c) r = Some v" "v \<in> fst ` set (items c)"
    using range_first_resident by blast
  have m: "map_of (items (Cache_Set c key doc now r))
           = ((map_of (items c))(v := None))(key \<mapsto> \<lparr>document = doc, expiresAt = now + ttl c\<rparr>)"
    using assms v(1) by (simp add: Cache_Set_items AList.update_conv' AList.delete_conv')
  have "length (items (Cache_Set c key doc now r)) = length (items c)"
    if d: "distinct (map fst (items c))"
  proof -
    have "key \<notin> fst ` set (items c)"
      using assms(1) by (simp add: map_of_eq_None_iff)
    then have "key \<notin> fst ` set (AList.delete v (items c))"
      by (auto simp: AList.delete_eq)
    then have "length (items (Cache_Set c key doc now r)) = Suc (length (AList.delete v (items c)))"
      using assms v(1) by (simp add: Cache_Set_items length_update)
    also have "\<dots> = length (items c)"
      using d v(2) by (rule length_delete_present)
    finally show ?thesis .
  qed
  with m v show ?thesis by blast
qed

lemma Cache_Set_distinct:
  assumes "distinct (map fst (items c))"
  shows "distinct (map fst (items (Cache_Set c key doc now r)))"
  using assms
  by (simp add: Cache_Set_items AList.distinct_update AList.distinct_delete)

lemma Cache_Set_capacity: "capacity (Cache_Set c key doc now r) = capacity c"
  by (simp add: Cache_Set_def Cache_evictRandom_def Let_def split: option.splits)

lemma Cache_Set_bounded:
  assumes "distinct (map fst (items c))" "0 < capacity c" "int (length (items c)) \<le> capacity c"
  shows "int (length (items (Cache_Set c key doc now r))) \<le> capacity c"
proof (cases "map_of (items c) key = None")
  case False
  then show ?thesis
    using assms(3) by (simp add: Cache_Set_length_present)
next
  case True
  show ?thesis
  proof (cases "capacity c \<le> int (length (items c))")
    case True
    with \<open>map_of (items c) key = None\<close> assms
      Cache_Set_map_of_full [of c key r doc now] show ?thesis
      by auto
  next
    case False
    with \<open>map_of (items c) key = None\<close> assms(3) show ?thesis
      by (simp add: Cache_Set_map_of_below(2))
  qed
qed

lemma apply_op_inv:
  assumes "0 < cap" "cache_inv cap c"
  shows "cache_inv cap (apply_op c op)"
proof (cases op)
  case (OpGet key now1 now2)
  have "length (AList.delete key (items c)) \<le> length (items c)"
    by (rule AList.length_delete_le)
  then show ?thesis
    using assms OpGet
    by (auto simp: cache_inv_def Cache_Get_def Get_expire_def AList.distinct_delete
        split: option.splits)
next
  case (OpSet key doc now r)
  then show ?thesis
    using assms Cache_Set_bounded [of c key doc now r]
    by (simp add: cache_inv_def Cache_Set_distinct Cache_Set_capacity)
next
  case (OpDelete key)
  have "length (AList.delete key (items c)) \<le> length (items c)"
    by (rule AList.length_delete_le)
  then show ?thesis
    using assms OpDelete by (auto simp: cache_inv_def Cache_Delete_def AList.distinct_delete)
next
  case OpClear
  then show ?thesis
    using assms by (simp add: cache_inv_def Cache_Clear_def)
next
  case (OpCleanup now)
  have "length (cleanup_delete (items c) (cleanup_collect c now) now) \<le> length (items c)"
    by (rule cleanup_delete_length)
  then show ?thesis
    using assms OpCleanup
    by (auto simp: cache_inv_def Cache_cleanup_def Let_def cleanup_delete_distinct)
qed

lemma run_ops_inv:
  assumes "0 < cap" "cache_inv cap c"
  shows "cache_inv cap (run_ops c ops)"
  using assms(2) unfolding run_ops_def
  by (induction ops arbitrary: c) (simp_all add: apply_op_inv [OF assms(1)])

lemma cache_inv_New: "0 < cap \<Longrightarrow> cache_inv cap (Cache_New t ci cap)"
  by (simp add: cache_inv_def Cache_New_def)

lemma distinct_length_card_dom:
  "distinct (map fst al) \<Longrightarrow> length al = card (dom (map_of al))"
  by (metis distinct_card dom_map_of_conv_image_fst length_map list.set_map)


text \<open>
  Claim C2. In every cache reached from a new cache of capacity \<open>cap > 0\<close> by a
  sequence of calls (\<open>Set\<close>, \<open>Delete\<close>, \<open>Clear\<close>, and also \<open>Get\<close> and the sweep),
  \<open>Size\<close> is the number of resident keys and is at most \<open>cap\<close>. There, \<open>Set\<close> on a
  new key while \<open>cap\<close> entries are resident removes exactly one resident entry, the
  one the map iteration yields first, and stores the new one; \<open>Set\<close> on a resident key
  replaces that entry and leaves every other entry in place.
\<close>

theorem capacity_never_exceeded:
  assumes "0 < cap" and "c = run_ops (Cache_New t ci cap) ops"
  shows "Cache_Size c \<le> cap
   \<and> Cache_Size c = int (card (dom (map_of (items c))))
   \<and> (map_of (items c) key = None \<and> Cache_Size c = cap \<longrightarrow>
        (\<exists>v. range_first (items c) r = Some v \<and> map_of (items c) v \<noteq> None
           \<and> map_of (items (Cache_Set c key doc now r))
               = ((map_of (items c))(v := None))(key \<mapsto> \<lparr>document = doc, expiresAt = now + ttl c\<rparr>)
           \<and> Cache_Size (Cache_Set c key doc now r) = cap))
   \<and> (map_of (items c) key \<noteq> None \<longrightarrow>
        map_of (items (Cache_Set c key doc now r))
          = (map_of (items c))(key \<mapsto> \<lparr>document = doc, expiresAt = now + ttl c\<rparr>)
        \<and> Cache_Size (Cache_Set c key doc now r) = Cache_Size c)"
proof -
  have inv: "cache_inv cap c"
    unfolding assms(2) using assms(1) by (intro run_ops_inv cache_inv_New)
  then have cap: "capacity c = cap" and d: "distinct (map fst (items c))"
    and le: "int (length (items c)) \<le> cap"
    by (simp_all add: cache_inv_def)
  have 1: "Cache_Size c \<le> cap"
    using le by (simp add: Cache_Size_def)
  have 2: "Cache_Size c = int (card (dom (map_of (items c))))"
    using d by (simp add: Cache_Size_def distinct_length_card_dom)
  have 3: "\<exists>v. range_first (items c) r = Some v \<and> map_of (items c) v \<noteq> None
           \<and> map_of (items (Cache_Set c key doc now r))
               = ((map_of (items c))(v := None))(key \<mapsto> \<lparr>document = doc, expiresAt = now + ttl c\<rparr>)
           \<and> Cache_Size (Cache_Set c key doc now r) = cap"
    if "map_of (items c) key = None" "Cache_Size c = cap"
  proof -
    have "capacity c \<le> int (length (items c))" "0 < capacity c"
      using that(2) cap assms(1) by (simp_all add: Cache_Size_def)
    with that(1) obtain v where v: "range_first (items c) r = Some v" "v \<in> fst ` set (items c)"
      "map_of (items (Cache_Set c key doc now r))
               = ((map_of (items c))(v := None))(key \<mapsto> \<lparr>document = doc, expiresAt = now + ttl c\<rparr>)"
      "length (items (Cache_Set c key doc now r)) = length (items c)"
      using Cache_Set_map_of_full [of c key r doc now] d by blast
    have "map_of (items c) v \<noteq> None"
      using v(2) by (simp add: map_of_eq_None_iff)
    moreover have "Cache_Size (Cache_Set c key doc now r) = cap"
      using v(4) that(2) by (simp add: Cache_Size_def)
    ultimately show ?thesis
      using v(1,3) by blast
  qed
  have 4: "map_of (items (Cache_Set c key doc now r))
          = (map_of (items c))(key \<mapsto> \<lparr>document = doc, expiresAt = now + ttl c\<rparr>)
        \<and> Cache_Size (Cache_Set c key doc now r) = Cache_Size c"
    if "map_of (items c) key \<noteq> None"
    using that by (simp add: Cache_Set_map_of_present Cache_Set_length_present Cache_Size_def)
  from 1 2 3 4 show ?thesis by blast
qed

theorem capacity_never_exceeded_witness:
  "(0::int) < 1
   \<and> Cache_Size (run_ops (Cache_New 5 60 1) [OpSet ''a'' doc_1 100 0, OpSet ''b'' doc_2 101 0]) \<le> 1
   \<and> map_of (items (run_ops (Cache_New 5 60 1) [OpSet ''a'' doc_1 100 0])) ''b'' = None
   \<and> Cache_Size (run_ops (Cache_New 5 60 1) [OpSet ''a'' doc_1 100 0]) = 1
   \<and> Cache_Size (Cache_Set (run_ops (Cache_New 5 60 1) [OpSet ''a'' doc_1 100 0])
                    ''b'' doc_2 101 0) = 1"
proof -
  have p: "(0::int) < 1" by simp
  have c1: "run_ops (Cache_New 5 60 1) [OpSet ''a'' doc_1 100 0]
             = \<lparr>items = [(''a'', \<lparr>document = doc_1, expiresAt = 105\<rparr>)], ttl = 5,
                capacity = 1, cleanupInterval = 60\<rparr>"
    by (simp add: run_ops_def Cache_New_def Cache_Set_def Let_def)
  have h: "map_of (items (run_ops (Cache_New 5 60 1) [OpSet ''a'' doc_1 100 0])) ''b'' = None
           \<and> Cache_Size (run_ops (Cache_New 5 60 1) [OpSet ''a'' doc_1 100 0]) = 1"
    by (simp add: c1 Cache_Size_def)
  have "Cache_Size (run_ops (Cache_New 5 60 1) [OpSet ''a'' doc_1 100 0, OpSet ''b'' doc_2 101 0]) \<le> 1"
    using capacity_never_exceeded [OF p refl, of 5 60 "[OpSet ''a'' doc_1 100 0, OpSet ''b'' doc_2 101 0]"]
    by blast
  moreover have "Cache_Size (Cache_Set (run_ops (Cache_New 5 60 1) [OpSet ''a'' doc_1 100 0])
                    ''b'' doc_2 101 0) = 1"
    using capacity_never_exceeded [OF p refl, of 5 60 "[OpSet ''a'' doc_1 100 0]" "''b''" 0 doc_2 101] h
    by blast
  ultimately show ?thesis
    using p h by blast
qed

text \<open>
  Claim C4, as amended. On a cache with \<open>ttl = 0\<close>, \<open>Set\<close> at clock reading \<open>now\<close>
  followed by \<open>Get\<close> on the same key returns not-found when the clock reading of the
  lookup is later than \<open>now\<close>, and returns the document when the lookup reads the same
  clock value: \<open>After\<close> is strict, so the entry is not yet expired at the very reading
  it was stored with.
\<close>

theorem ttl_zero_Set_then_Get:
  assumes "ttl c = 0"
  shows "snd (Cache_Get (Cache_Set c key doc now r) key now1 now2)
           = (if now < now1 then None else Some doc)"
proof -
  have "map_of (items (Cache_Set c key doc now r)) key = Some \<lparr>document = doc, expiresAt = now\<rparr>"
    using assms by (simp add: Cache_Set_items AList.update_conv')
  then show ?thesis
    by (simp add: Cache_Get_def After_def)
qed


theorem ttl_zero_Set_then_Get_witness:
  "ttl (Cache_New 0 60 2) = 0
   \<and> snd (Cache_Get (Cache_Set (Cache_New 0 60 2) ''doc-1'' doc_1 100 0) ''doc-1'' 101 101) = None"
proof -
  have t: "ttl (Cache_New 0 60 2) = 0"
    by (simp add: Cache_New_def)
  show ?thesis
    using ttl_zero_Set_then_Get [OF t, of "''doc-1''" doc_1 100 0 101 101] t by simp
qed

text \<open>
  Claim C4 as it is written fails when the lookup reads the clock value the entry was
  stored with: the entry is returned.
\<close>

theorem ttl_zero_same_reading_counterexample:
  "snd (Cache_Get (Cache_Set (Cache_New 0 60 2) ''doc-1'' doc_1 100 0) ''doc-1'' 100 100)
     = Some doc_1"
  by (simp add: Cache_Get_def Cache_Set_def Cache_New_def After_def Let_def)

section \<open>Properties of the item processor\<close>

subsection \<open>Sorting\<close>

lemma mset_insert_back: "mset (insert_back lessFn x ys) = add_mset x (mset ys)"
  by (induction ys) auto

lemma set_insert_back: "set (insert_back lessFn x ys) = insert x (set ys)"
  by (induction ys) auto

lemma mset_foldl_insert_back:
  "mset (foldl (\<lambda>acc x. insert_back lessFn x acc) acc xs) = mset acc + mset xs"
  by (induction xs arbitrary: acc) (auto simp: mset_insert_back)

lemma mset_insertionSort: "mset (insertionSort lessFn xs) = mset xs"
  by (simp add: insertionSort_def mset_foldl_insert_back)

lemma sorted_insert_back:
  assumes asym: "\<And>a b. lessFn a b \<Longrightarrow> \<not> lessFn b a"
    and ntrans: "\<And>a b c. \<not> lessFn a b \<Longrightarrow> \<not> lessFn b c \<Longrightarrow> \<not> lessFn a c"
    and "sorted_wrt (\<lambda>a b. \<not> lessFn a b) ys"
  shows "sorted_wrt (\<lambda>a b. \<not> lessFn a b) (insert_back lessFn x ys)"
  using assms(3)
proof (induction ys)
  case Nil
  then show ?case by simp
next
  case (Cons y ys)
  show ?case
  proof (cases "lessFn x y")
    case True
    then have "\<not> lessFn y x" by (rule asym)
    then show ?thesis
      using True Cons by (auto simp: set_insert_back)
  next
    case False
    have "\<not> lessFn x z" if "z \<in> set ys" for z
    proof -
      have "\<not> lessFn y z" using Cons.prems that by simp
      with False show ?thesis by (rule ntrans)
    qed
    then show ?thesis
      using False Cons.prems by simp
  qed
qed

lemma sorted_foldl_insert_back:
  assumes asym: "\<And>a b. lessFn a b \<Longrightarrow> \<not> lessFn b a"
    and ntrans: "\<And>a b c. \<not> lessFn a b \<Longrightarrow> \<not> lessFn b c \<Longrightarrow> \<not> lessFn a c"
  shows "sorted_wrt (\<lambda>a b. \<not> lessFn a b) acc
    \<Longrightarrow> sorted_wrt (\<lambda>a b. \<not> lessFn a b) (foldl (\<lambda>acc x. insert_back lessFn x acc) acc xs)"
proof (induction xs arbitrary: acc)
  case Nil
  then show ?case by simp
next
  case (Cons x xs)
  have "sorted_wrt (\<lambda>a b. \<not> lessFn a b) (insert_back lessFn x acc)"
    using asym ntrans Cons.prems by (rule sorted_insert_back)
  then show ?case
    using Cons.IH by simp
qed

lemma sorted_insertionSort:
  assumes asym: "\<And>a b. lessFn a b \<Longrightarrow> \<not> lessFn b a"
    and ntrans: "\<And>a b c. \<not> lessFn a b \<Longrightarrow> \<not> lessFn b c \<Longrightarrow> \<not> lessFn a c"
  shows "sorted_wrt (\<lambda>a b. \<not> lessFn b a) (insertionSort lessFn xs)"
proof -
  have "sorted_wrt (\<lambda>a b. \<not> lessFn a b) (foldl (\<lambda>acc x. insert_back lessFn x acc) [] xs)"
    by (rule sorted_foldl_insert_back [OF asym ntrans]) simp_all
  then show ?thesis
    by (simp add: insertionSort_def sorted_wrt_rev)
qed

lemma insertionSort_spec:
  assumes asym: "\<And>a b. lessFn a b \<Longrightarrow> \<not> lessFn b a"
    and ntrans: "\<And>a b c. \<not> lessFn a b \<Longrightarrow> \<not> lessFn b c \<Longrightarrow> \<not> lessFn a c"
  shows "sort_Slice_spec insertionSort lessFn"
  unfolding sort_Slice_spec_def
  using sorted_insertionSort [of lessFn, OF asym ntrans] by (simp add: mset_insertionSort)

lemma reversingSort_spec:
  assumes asym: "\<And>a b. lessFn a b \<Longrightarrow> \<not> lessFn b a"
    and ntrans: "\<And>a b c. \<not> lessFn a b \<Longrightarrow> \<not> lessFn b c \<Longrightarrow> \<not> lessFn a c"
  shows "sort_Slice_spec reversingSort lessFn"
proof -
  have a': "\<not> (\<lambda>a b. lessFn b a) b a" if "(\<lambda>a b. lessFn b a) a b" for a b
    using that asym by blast
  have n': "\<not> (\<lambda>a b. lessFn b a) a c" if "\<not> (\<lambda>a b. lessFn b a) a b" "\<not> (\<lambda>a b. lessFn b a) b c" for a b c
    using that ntrans by blast
  have "sorted_wrt (\<lambda>a b. \<not> (\<lambda>a b. lessFn b a) b a) (insertionSort (\<lambda>a b. lessFn b a) xs)" for xs
    using a' n' by (rule sorted_insertionSort)
  then show ?thesis
    by (simp add: sort_Slice_spec_def reversingSort_def mset_insertionSort sorted_wrt_rev)
qed

lemma items_less_asym: "items_less a b \<Longrightarrow> \<not> items_less b a"
  by (simp add: items_less_def)

lemma items_less_ntrans: "\<not> items_less a b \<Longrightarrow> \<not> items_less b c \<Longrightarrow> \<not> items_less a c"
  by (simp add: items_less_def)

lemma insertionSort_items_spec: "sort_Slice_spec insertionSort items_less"
  using items_less_asym items_less_ntrans by (rule insertionSort_spec)

lemma reversingSort_items_spec: "sort_Slice_spec reversingSort items_less"
  using items_less_asym items_less_ntrans by (rule reversingSort_spec)

lemma processDocument_Items:
  "doc_Items (processDocument srt doc) = map_option (srt items_less) (doc_Items doc)"
  by (simp add: processDocument_def Let_def split: option.splits)

lemma processDocument_fields:
  "processDocument srt doc = doc\<lparr>doc_Items := map_option (srt items_less) (doc_Items doc)\<rparr>"
  by (simp add: processDocument_def Let_def split: option.splits)

lemma processDocument_sorted:
  assumes "sort_Slice_spec srt items_less"
  shows "sorted_wrt (\<lambda>a b. item_Sort b \<le> item_Sort a) (slice_elems (doc_Items (processDocument srt doc)))"
    and "mset (slice_elems (doc_Items (processDocument srt doc))) = mset (slice_elems (doc_Items doc))"
    and "doc_Items (processDocument srt doc) = None \<longleftrightarrow> doc_Items doc = None"
proof -
  have s: "sorted_wrt (\<lambda>a b. \<not> items_less b a) (srt items_less xs)" and m: "mset (srt items_less xs) = mset xs" for xs
    using assms by (simp_all add: sort_Slice_spec_def)
  have e: "(\<lambda>a b. \<not> items_less b a) = (\<lambda>a b. item_Sort b \<le> item_Sort a)"
    by (auto simp: items_less_def fun_eq_iff)
  show "sorted_wrt (\<lambda>a b. item_Sort b \<le> item_Sort a) (slice_elems (doc_Items (processDocument srt doc)))"
    using s e by (cases "doc_Items doc") (simp_all add: processDocument_Items slice_elems_def)
  show "mset (slice_elems (doc_Items (processDocument srt doc))) = mset (slice_elems (doc_Items doc))"
    using m by (cases "doc_Items doc") (simp_all add: processDocument_Items slice_elems_def)
  show "doc_Items (processDocument srt doc) = None \<longleftrightarrow> doc_Items doc = None"
    by (simp add: processDocument_Items)
qed

subsection \<open>Collecting the results\<close>

lemma collect_aux_map_of:
  "distinct (map fst rs) \<Longrightarrow>
   map_of (foldl (\<lambda>m (index, doc). AList.update index doc m) m rs) k
     = (case map_of rs k of Some d \<Rightarrow> Some d | None \<Rightarrow> map_of m k)"
proof (induction rs arbitrary: m)
  case Nil
  then show ?case by simp
next
  case (Cons p rs)
  obtain i d where p: "p = (i, d)" by (cases p)
  have "map_of rs i = None"
    using Cons.prems p by (simp add: map_of_eq_None_iff)
  then show ?case
    using Cons p by (auto simp: AList.update_conv' split: option.splits)
qed

lemma collect_aux_keys:
  "fst ` set (foldl (\<lambda>m (index, doc). AList.update index doc m) m rs) = fst ` set m \<union> fst ` set rs"
proof (induction rs arbitrary: m)
  case Nil
  then show ?case by simp
next
  case (Cons p rs)
  obtain i d where p: "p = (i, d)" by (cases p)
  have "fst ` set (AList.update i d m) = {i} \<union> fst ` set m"
    by (rule AList.dom_update)
  then show ?case
    using Cons.IH [of "AList.update i d m"] p by auto
qed

lemma collect_aux_distinct:
  "distinct (map fst m) \<Longrightarrow>
   distinct (map fst (foldl (\<lambda>m (index, doc). AList.update index doc m) m rs))"
  by (induction rs arbitrary: m) (auto simp: AList.distinct_update split: prod.splits)

lemma collect_map_of: "distinct (map fst rs) \<Longrightarrow> map_of (collect rs) k = map_of rs k"
  by (simp add: collect_def collect_aux_map_of split: option.splits)

lemma collect_length: "length (collect rs) = card (fst ` set rs)"
proof -
  have d: "distinct (map fst (collect rs))"
    unfolding collect_def by (rule collect_aux_distinct) simp
  have "length (collect rs) = length (map fst (collect rs))" by simp
  also have "\<dots> = card (set (map fst (collect rs)))"
    using d by (simp only: distinct_card)
  also have "\<dots> = card (fst ` set rs)"
    by (simp add: collect_def collect_aux_keys)
  finally show ?thesis .
qed

lemma fill_all:
  "\<forall>i \<in> set js. map_of pm i = Some (f i) \<Longrightarrow> fill pm js = Inr (map f js)"
  by (induction js) simp_all

lemma assemble_complete:
  assumes d: "distinct (map fst rs)"
    and k: "fst ` set rs = {..<length documents}"
    and v: "\<And>i d. (i, d) \<in> set rs \<Longrightarrow> d = f (documents ! i)"
  shows "assemble documents (collect rs) = Inr (map f documents)"
proof -
  have len: "length (collect rs) = length documents"
    using k by (simp add: collect_length)
  have m: "map_of (collect rs) i = Some (f (documents ! i))" if "i \<in> set [0..<length documents]" for i
  proof -
    have "i \<in> fst ` set rs" using that k by simp
    then obtain d where "(i, d) \<in> set rs" by auto
    then have "map_of rs i = Some d" "d = f (documents ! i)"
      using d v by simp_all
    then show ?thesis
      using d by (simp add: collect_map_of)
  qed
  have "fill (collect rs) [0..<length documents] = Inr (map (\<lambda>i. f (documents ! i)) [0..<length documents])"
    using m by (intro fill_all) blast
  moreover have "map (\<lambda>i. f (documents ! i)) [0..<length documents] = map f documents"
    by (rule nth_equalityI) simp_all
  ultimately show ?thesis
    using len by (simp add: assemble_def)
qed

subsection \<open>The invariant of a call\<close>

lemma active_upd:
  "active (ts(i := t)) =
     (if t \<noteq> NotStarted \<and> t \<noteq> Finished then insert i (active ts) else active ts - {i})"
  by (auto simp: active_def)

lemma active_finite:
  assumes "\<forall>i. ts i \<noteq> NotStarted \<longrightarrow> i < n"
  shows "finite (active ts)"
proof (rule finite_subset)
  show "active ts \<subseteq> {..<n}" using assms by (auto simp: active_def)
qed simp

lemma proc_inv_started: "proc_inv srt documents s \<Longrightarrow> tasks s i \<noteq> NotStarted \<Longrightarrow> i < length documents"
  unfolding proc_inv_def by blast

lemma proc_inv_LoopTop:
  "proc_inv srt documents s \<Longrightarrow> pc s = LoopTop j
    \<Longrightarrow> j \<le> length documents \<and> (\<forall>i. tasks s i \<noteq> NotStarted \<longleftrightarrow> i < j)"
  unfolding proc_inv_def by blast

lemma proc_inv_Select:
  "proc_inv srt documents s \<Longrightarrow> pc s = Select j
    \<Longrightarrow> j < length documents \<and> (\<forall>i. tasks s i \<noteq> NotStarted \<longleftrightarrow> i < j)"
  unfolding proc_inv_def by blast

lemma proc_inv_Wait:
  "proc_inv srt documents s \<Longrightarrow> pc s = Wait \<Longrightarrow> \<not> ctx_done s
    \<Longrightarrow> i < length documents \<Longrightarrow> tasks s i \<noteq> NotStarted"
  unfolding proc_inv_def by blast

lemma proc_inv_Running:
  "proc_inv srt documents s \<Longrightarrow> tasks s i = Running d \<Longrightarrow> d = documents ! i"
  unfolding proc_inv_def by blast

lemma proc_inv_results:
  "proc_inv srt documents s \<Longrightarrow> (i, d) \<in> set (results s)
    \<Longrightarrow> past_select (tasks s i) \<and> d = processDocument srt (documents ! i)"
  unfolding proc_inv_def by blast

lemma proc_inv_distinct: "proc_inv srt documents s \<Longrightarrow> distinct (map fst (results s))"
  unfolding proc_inv_def by blast

lemma proc_inv_sent:
  "proc_inv srt documents s \<Longrightarrow> \<not> ctx_done s \<Longrightarrow> past_select (tasks s i)
    \<Longrightarrow> i \<in> fst ` set (results s)"
  unfolding proc_inv_def by blast

lemma proc_inv_wg: "proc_inv srt documents s \<Longrightarrow> wg s = int (card (active (tasks s)))"
  unfolding proc_inv_def by blast

lemma proc_inv_Returned:
  "proc_inv srt documents s \<Longrightarrow> pc s = Returned r
    \<Longrightarrow> r = Inl Cancelled \<and> ctx_done s \<or> r = Inr (map (processDocument srt) documents)"
  unfolding proc_inv_def by blast

lemma proc_inv_finite: "proc_inv srt documents s \<Longrightarrow> finite (active (tasks s))"
  using active_finite [of "tasks s" "length documents"] proc_inv_started by blast

lemma inv_init: "proc_inv srt documents (init c documents)"
  by (auto simp: proc_inv_def init_def active_def past_select_def)

lemma inv_cancel:
  assumes "proc_inv srt documents s"
  shows "proc_inv srt documents (s\<lparr>ctx_done := True\<rparr>)"
  using assms unfolding proc_inv_def by (elim conjE, intro conjI; auto)

lemma inv_LoopTop:
  assumes "proc_inv srt documents s" "pc s = LoopTop i"
  shows "proc_inv srt documents (main_step ncpu documents b s)"
  using assms unfolding proc_inv_def by (elim conjE, intro conjI; auto)

lemma inv_Returned:
  assumes "proc_inv srt documents s" "pc s = Returned r"
  shows "proc_inv srt documents (main_step ncpu documents b s)"
  using assms by simp

lemma spawn_inv:
  assumes inv: "proc_inv srt documents s" and pc: "pc s = Select i" and s': "s' = s\<lparr>sem := k\<rparr>"
  shows "proc_inv srt documents (spawn documents i s')"
proof -
  have ns: "tasks s i = NotStarted" and lt: "i < length documents"
    using proc_inv_Select [OF inv pc] by auto
  have fin: "finite (active (tasks s))"
    using inv by (rule proc_inv_finite)
  have ni: "i \<notin> active (tasks s)"
    using ns by (simp add: active_def)
  have c: "card (active ((tasks s)(i := Running (documents ! i)))) = Suc (card (active (tasks s)))"
    using fin ni by (simp add: active_upd)
  have ps: "past_select (if k = i then Running (documents ! i) else tasks s k) = (k \<noteq> i \<and> past_select (tasks s k))" for k
    using ns by (auto simp: past_select_def)
  have nr: "(i, d) \<notin> set (results s)" for d
    using proc_inv_results [OF inv, of i d] ns by (auto simp: past_select_def)
  show ?thesis
    using inv pc lt unfolding proc_inv_def s' spawn_def
    apply (elim conjE)
    apply (intro conjI)
    subgoal by auto
    subgoal by (auto simp: less_Suc_eq)
    subgoal by auto
    subgoal by auto
    subgoal by auto
    subgoal using nr by (auto simp: ps)
    subgoal by auto
    subgoal by (auto simp: ps)
    subgoal using c by simp
    subgoal by auto
    done
qed

lemma inv_Select:
  assumes "proc_inv srt documents s" "pc s = Select i"
  shows "proc_inv srt documents (main_step ncpu documents b s)"
  using assms spawn_inv [OF assms, of "s\<lparr>sem := sem s + 1\<rparr>" "sem s + 1"]
    spawn_inv [OF assms, of s "sem s"]
  by simp


lemma results_complete:
  assumes inv: "proc_inv srt documents s" and pc: "pc s = Wait" and wg: "wg s = 0"
    and nc: "\<not> ctx_done s"
  shows "fst ` set (results s) = {..<length documents}"
proof
  show "fst ` set (results s) \<subseteq> {..<length documents}"
  proof
    fix i assume "i \<in> fst ` set (results s)"
    then obtain d where "(i, d) \<in> set (results s)" by auto
    then have "past_select (tasks s i)"
      using proc_inv_results [OF inv] by blast
    then have "tasks s i \<noteq> NotStarted"
      by (auto simp: past_select_def)
    then show "i \<in> {..<length documents}"
      using proc_inv_started [OF inv] by simp
  qed
  show "{..<length documents} \<subseteq> fst ` set (results s)"
  proof
    fix i assume "i \<in> {..<length documents}"
    then have st: "tasks s i \<noteq> NotStarted"
      using proc_inv_Wait [OF inv pc nc] by simp
    have "card (active (tasks s)) = 0"
      using proc_inv_wg [OF inv] wg by simp
    then have "active (tasks s) = {}"
      using proc_inv_finite [OF inv] by simp
    then have "tasks s i = Finished"
      using st by (auto simp: active_def)
    then have "past_select (tasks s i)"
      by (simp add: past_select_def)
    with inv nc show "i \<in> fst ` set (results s)"
      by (rule proc_inv_sent)
  qed
qed

lemma finish_complete:
  assumes inv: "proc_inv srt documents s" and pc: "pc s = Wait" and wg: "wg s = 0"
  shows "finish (ctx_done s) documents (results s)
           = (if ctx_done s then Inl Cancelled else Inr (map (processDocument srt) documents))"
proof (cases "ctx_done s")
  case True
  then show ?thesis by (simp add: finish_def)
next
  case False
  have "assemble documents (collect (results s)) = Inr (map (processDocument srt) documents)"
  proof (rule assemble_complete)
    show "distinct (map fst (results s))" using inv by (rule proc_inv_distinct)
    show "fst ` set (results s) = {..<length documents}"
      using inv pc wg False by (rule results_complete)
    show "d = processDocument srt (documents ! i)" if "(i, d) \<in> set (results s)" for i d
      using proc_inv_results [OF inv that] by simp
  qed
  then show ?thesis
    using False by (simp add: finish_def)
qed

lemma inv_Wait:
  assumes inv: "proc_inv srt documents s" and pc: "pc s = Wait"
  shows "proc_inv srt documents (main_step ncpu documents b s)"
proof (cases "wg s = 0")
  case False
  then show ?thesis using inv pc by simp
next
  case True
  have f: "finish (ctx_done s) documents (results s)
           = (if ctx_done s then Inl Cancelled else Inr (map (processDocument srt) documents))"
    using inv pc True by (rule finish_complete)
  have "proc_inv srt documents (s\<lparr>pc := Returned (finish (ctx_done s) documents (results s))\<rparr>)"
    using inv unfolding proc_inv_def f by (elim conjE, intro conjI; simp)
  then show ?thesis
    using pc True by simp
qed

lemma inv_main:
  assumes "proc_inv srt documents s"
  shows "proc_inv srt documents (main_step ncpu documents b s)"
proof (cases "pc s")
  case (LoopTop i)
  with assms show ?thesis by (rule inv_LoopTop)
next
  case (Select i)
  with assms show ?thesis by (rule inv_Select)
next
  case Wait
  with assms show ?thesis by (rule inv_Wait)
next
  case (Returned r)
  with assms show ?thesis by (rule inv_Returned)
qed

lemma task_upd_inv:
  assumes inv: "proc_inv srt documents s"
    and st: "tasks s idx \<noteq> NotStarted" "tasks s idx \<noteq> Finished"
    and t: "t = Releasing \<and> (ctx_done s \<or> idx \<in> fst ` set (results s)) \<or> t = Finishing \<and> past_select (tasks s idx)"
  shows "proc_inv srt documents (s\<lparr>sem := k, tasks := (tasks s)(idx := t)\<rparr>)"
proof -
  have tn: "t \<noteq> NotStarted" "t \<noteq> Finished" "past_select t" "\<forall>d. t \<noteq> Running d"
    using t by (auto simp: past_select_def)
  have a: "active ((tasks s)(idx := t)) = active (tasks s)"
    using st tn by (auto simp: active_def)
  have ns: "((tasks s)(idx := t)) i \<noteq> NotStarted \<longleftrightarrow> tasks s i \<noteq> NotStarted" for i
    using st tn by simp
  have ps: "past_select (tasks s i) \<Longrightarrow> past_select (((tasks s)(idx := t)) i)" for i
    using tn by simp
  have sent: "i \<in> fst ` set (results s)"
    if "\<not> ctx_done s" "past_select (((tasks s)(idx := t)) i)" for i
  proof (cases "i = idx")
    case True
    then show ?thesis
      using t that(1) proc_inv_sent [OF inv that(1), of idx] by auto
  next
    case False
    then show ?thesis
      using that proc_inv_sent [OF inv that(1), of i] by simp
  qed
  define s' where "s' = s\<lparr>sem := k, tasks := (tasks s)(idx := t)\<rparr>"
  have sel: "pc s' = pc s" "tasks s' = (tasks s)(idx := t)" "results s' = results s"
    "wg s' = wg s" "ctx_done s' = ctx_done s"
    by (simp_all add: s'_def)
  have "proc_inv srt documents s'"
    unfolding proc_inv_def sel a ns
    apply (intro conjI)
    subgoal using inv unfolding proc_inv_def by blast
    subgoal using inv unfolding proc_inv_def by blast
    subgoal using inv unfolding proc_inv_def by blast
    subgoal using inv unfolding proc_inv_def by blast
    subgoal using proc_inv_Running [OF inv] tn by (auto split: if_splits)
    subgoal using proc_inv_results [OF inv] ps by blast
    subgoal using inv by (rule proc_inv_distinct)
    subgoal using sent by blast
    subgoal using inv by (rule proc_inv_wg)
    subgoal using proc_inv_Returned [OF inv] by blast
    done
  then show ?thesis
    by (simp add: s'_def)
qed


lemma send_inv:
  assumes inv: "proc_inv srt documents s" and st: "tasks s idx = Running d"
  shows "proc_inv srt documents
           (s\<lparr>results := results s @ [(idx, processDocument srt d)],
              tasks := (tasks s)(idx := Releasing)\<rparr>)"
proof -
  define s' where "s' = s\<lparr>results := results s @ [(idx, processDocument srt d)],
              tasks := (tasks s)(idx := Releasing)\<rparr>"
  have sel: "pc s' = pc s" "tasks s' = (tasks s)(idx := Releasing)"
    "results s' = results s @ [(idx, processDocument srt d)]"
    "wg s' = wg s" "ctx_done s' = ctx_done s"
    by (simp_all add: s'_def)
  have d: "d = documents ! idx"
    using inv st by (rule proc_inv_Running)
  have a: "active ((tasks s)(idx := Releasing)) = active (tasks s)"
    using st by (auto simp: active_def)
  have ns: "((tasks s)(idx := Releasing)) i \<noteq> NotStarted \<longleftrightarrow> tasks s i \<noteq> NotStarted" for i
    using st by simp
  have fresh: "idx \<notin> fst ` set (results s)"
  proof
    assume "idx \<in> fst ` set (results s)"
    then obtain e where "(idx, e) \<in> set (results s)" by auto
    then have "past_select (tasks s idx)"
      using proc_inv_results [OF inv] by blast
    then show False
      using st by (simp add: past_select_def)
  qed
  have res: "past_select (((tasks s)(idx := Releasing)) i) \<and> e = processDocument srt (documents ! i)"
    if "(i, e) \<in> set (results s @ [(idx, processDocument srt d)])" for i e
  proof (cases "(i, e) \<in> set (results s)")
    case True
    then show ?thesis
      using proc_inv_results [OF inv True] by (simp add: past_select_def)
  next
    case False
    then have "i = idx" "e = processDocument srt d"
      using that by auto
    then show ?thesis
      using d by (simp add: past_select_def)
  qed
  have sent: "i \<in> fst ` set (results s @ [(idx, processDocument srt d)])"
    if "\<not> ctx_done s" "past_select (((tasks s)(idx := Releasing)) i)" for i
  proof (cases "i = idx")
    case True
    then show ?thesis by simp
  next
    case False
    then show ?thesis
      using that proc_inv_sent [OF inv that(1), of i] by auto
  qed
  have "proc_inv srt documents s'"
    unfolding proc_inv_def sel a ns
    apply (intro conjI)
    subgoal using inv unfolding proc_inv_def by blast
    subgoal using inv unfolding proc_inv_def by blast
    subgoal using inv unfolding proc_inv_def by blast
    subgoal using inv unfolding proc_inv_def by blast
    subgoal using proc_inv_Running [OF inv] by (auto split: if_splits)
    subgoal using res by blast
    subgoal using proc_inv_distinct [OF inv] fresh by simp
    subgoal using sent by blast
    subgoal using inv by (rule proc_inv_wg)
    subgoal using proc_inv_Returned [OF inv] by blast
    done
  then show ?thesis
    by (simp add: s'_def)
qed

lemma done_inv:
  assumes inv: "proc_inv srt documents s" and st: "tasks s idx = Finishing"
  shows "proc_inv srt documents (s\<lparr>wg := wg s - 1, tasks := (tasks s)(idx := Finished)\<rparr>)"
proof -
  define s' where "s' = s\<lparr>wg := wg s - 1, tasks := (tasks s)(idx := Finished)\<rparr>"
  have sel: "pc s' = pc s" "tasks s' = (tasks s)(idx := Finished)"
    "results s' = results s" "wg s' = wg s - 1" "ctx_done s' = ctx_done s"
    by (simp_all add: s'_def)
  have ns: "((tasks s)(idx := Finished)) i \<noteq> NotStarted \<longleftrightarrow> tasks s i \<noteq> NotStarted" for i
    using st by simp
  have mem: "idx \<in> active (tasks s)"
    using st by (simp add: active_def)
  have fin: "finite (active (tasks s))"
    using inv by (rule proc_inv_finite)
  have "card (active (tasks s) - {idx}) = card (active (tasks s)) - 1"
    using mem fin by simp
  moreover have "0 < card (active (tasks s))"
    using mem fin by (auto simp: card_gt_0_iff)
  ultimately have c: "wg s - 1 = int (card (active ((tasks s)(idx := Finished))))"
    using proc_inv_wg [OF inv] by (simp add: active_upd)
  have ps: "past_select (((tasks s)(idx := Finished)) i) \<longleftrightarrow> past_select (tasks s i)" for i
    using st by (simp add: past_select_def)
  have "proc_inv srt documents s'"
    unfolding proc_inv_def sel ns ps
    apply (intro conjI)
    subgoal using inv unfolding proc_inv_def by blast
    subgoal using inv unfolding proc_inv_def by blast
    subgoal using inv unfolding proc_inv_def by blast
    subgoal using inv unfolding proc_inv_def by blast
    subgoal using proc_inv_Running [OF inv] by (auto split: if_splits)
    subgoal using proc_inv_results [OF inv] by blast
    subgoal using inv by (rule proc_inv_distinct)
    subgoal using proc_inv_sent [OF inv] by blast
    subgoal using c by simp
    subgoal using proc_inv_Returned [OF inv] by blast
    done
  then show ?thesis
    by (simp add: s'_def)
qed

lemma inv_task:
  assumes inv: "proc_inv srt documents s"
  shows "proc_inv srt documents (task_step srt documents idx s)"
proof (cases "tasks s idx")
  case NotStarted
  then show ?thesis using inv by simp
next
  case (Running d)
  have 1: "proc_inv srt documents (s\<lparr>sem := sem s, tasks := (tasks s)(idx := Releasing)\<rparr>)"
    if "ctx_done s"
    using inv that Running by (intro task_upd_inv) simp_all
  have 2: "proc_inv srt documents
           (s\<lparr>results := results s @ [(idx, processDocument srt d)],
              tasks := (tasks s)(idx := Releasing)\<rparr>)"
    using inv Running by (rule send_inv)
  show ?thesis
    using Running inv 1 2 by simp
next
  case Releasing
  have "proc_inv srt documents (s\<lparr>sem := sem s - 1, tasks := (tasks s)(idx := Finishing)\<rparr>)"
    using inv Releasing by (intro task_upd_inv) (simp_all add: past_select_def)
  then show ?thesis
    using Releasing inv by simp
next
  case Finishing
  then show ?thesis
    using done_inv [OF inv Finishing] by simp
next
  case Finished
  then show ?thesis using inv by simp
qed

lemma inv_step:
  assumes "proc_inv srt documents s"
  shows "proc_inv srt documents (step srt ncpu documents s a)"
  using assms by (cases a) (simp_all add: inv_cancel inv_main inv_task del: main_step.simps task_step.simps)

lemma inv_run: "proc_inv srt documents (run srt ncpu c documents sched)"
proof -
  have "proc_inv srt documents (foldl (step srt ncpu documents) s sched)"
    if "proc_inv srt documents s" for s
    using that by (induction sched arbitrary: s) (simp_all add: inv_step del: step.simps)
  then show ?thesis
    unfolding run_def using inv_init by blast
qed

subsection \<open>What a call returns\<close>

lemma step_ctx_done:
  "ctx_done (step srt ncpu documents s a) \<longleftrightarrow> ctx_done s \<or> a = Cancel"
proof (cases a)
  case Cancel
  then show ?thesis by simp
next
  case (Main b)
  then show ?thesis
    by (cases "pc s") (simp_all add: spawn_def)
next
  case (Task idx)
  then show ?thesis
    by (cases "tasks s idx") simp_all
qed

lemma foldl_ctx_done:
  "ctx_done (foldl (step srt ncpu documents) s sched) \<longleftrightarrow> ctx_done s \<or> Cancel \<in> set sched"
  by (induction sched arbitrary: s) (auto simp: step_ctx_done simp del: step.simps)

lemma run_ctx_done:
  "ctx_done (run srt ncpu c documents sched) \<longleftrightarrow> c \<or> Cancel \<in> set sched"
  by (simp add: run_def foldl_ctx_done init_def)

lemma returned_value:
  assumes "processDocumentsParallel srt ncpu c documents sched = Some r"
  shows "r = Inl Cancelled \<and> (c \<or> Cancel \<in> set sched) \<or> r = Inr (map (processDocument srt) documents)"
proof -
  have "pc (run srt ncpu c documents sched) = Returned r"
    using assms by (simp add: processDocumentsParallel_def split: main_pc.splits)
  then show ?thesis
    using proc_inv_Returned [OF inv_run, of srt ncpu c documents sched r]
    by (simp add: run_ctx_done)
qed

lemma seq_block:
  assumes "k < length documents" "0 < ncpu"
  shows "foldl (step srt ncpu documents) (seq_state srt documents k)
           [Main False, Main False, Task k, Task k, Task k] = seq_state srt documents (Suc k)"
proof -
  have "(\<lambda>i. if i < k then Finished else NotStarted)(k := Finished)
          = (\<lambda>i. if i < Suc k then Finished else NotStarted)"
    by (auto simp: fun_eq_iff)
  then show ?thesis
    using assms by (simp add: seq_state_def spawn_def)
qed

lemma seq_blocks:
  assumes "k \<le> length documents" "0 < ncpu"
  shows "foldl (step srt ncpu documents) (seq_state srt documents 0)
           (concat (map (\<lambda>i. [Main False, Main False, Task i, Task i, Task i]) [0..<k]))
         = seq_state srt documents k"
  using assms(1)
proof (induction k)
  case 0
  then show ?case by simp
next
  case (Suc k)
  then have "k < length documents" by simp
  then show ?case
    using Suc assms(2) seq_block [of k documents ncpu srt]
    by (simp del: step.simps foldl_Cons)
qed


lemma seq_schedule_returns:
  assumes "0 < ncpu"
  shows "processDocumentsParallel srt ncpu False documents (seq_schedule (length documents))
           = Some (Inr (map (processDocument srt) documents))"
proof (cases "length documents = 0")
  case True
  then show ?thesis
    by (simp add: processDocumentsParallel_def run_def init_def seq_schedule_def)
next
  case False
  define blocks where "blocks =
     concat (map (\<lambda>i. [Main False, Main False, Task i, Task i, Task i]) [0..<length documents])"
  define w where "w = run srt ncpu False documents (blocks @ [Main False])"
  have i0: "init False documents = seq_state srt documents 0"
    using False by (simp add: init_def seq_state_def)
  have "run srt ncpu False documents blocks = seq_state srt documents (length documents)"
    unfolding run_def i0 blocks_def using assms by (intro seq_blocks) simp_all
  then have w: "w = (seq_state srt documents (length documents))\<lparr>pc := Wait\<rparr>"
    by (simp add: w_def run_def seq_state_def)
  then have pcw: "pc w = Wait" and wgw: "wg w = 0" and ncw: "\<not> ctx_done w"
    by (simp_all add: seq_state_def)
  have "proc_inv srt documents w"
    unfolding w_def by (rule inv_run)
  then have "finish (ctx_done w) documents (results w)
           = (if ctx_done w then Inl Cancelled else Inr (map (processDocument srt) documents))"
    using pcw wgw by (rule finish_complete)
  then have "pc (step srt ncpu documents w (Main False))
               = Returned (Inr (map (processDocument srt) documents))"
    using pcw wgw ncw by simp
  moreover have "run srt ncpu False documents (seq_schedule (length documents))
                   = step srt ncpu documents w (Main False)"
    by (simp add: w_def run_def seq_schedule_def blocks_def del: step.simps)
  ultimately show ?thesis
    by (simp add: processDocumentsParallel_def)
qed

subsection \<open>A call that is not cancelled cannot get stuck\<close>

lemma holding_finite:
  assumes "proc_inv srt documents s"
  shows "finite (holding (tasks s))"
proof (rule finite_subset)
  show "holding (tasks s) \<subseteq> {..<length documents}"
    using proc_inv_started [OF assms] by (auto simp: holding_def)
qed simp

lemma holding_upd:
  "holding (ts(i := t)) =
     (if (\<exists>d. t = Running d) \<or> t = Releasing then insert i (holding ts) else holding ts - {i})"
  by (auto simp: holding_def)

lemma uncancelled_init: "uncancelled_inv ncpu (init False documents)"
  by (simp add: uncancelled_inv_def init_def holding_def)

lemma uncancelled_main:
  assumes inv: "proc_inv srt documents s" and u: "uncancelled_inv ncpu s"
  shows "uncancelled_inv ncpu (main_step ncpu documents b s)"
proof (cases "pc s")
  case (LoopTop i)
  then show ?thesis using u by (simp add: uncancelled_inv_def)
next
  case (Select i)
  have ns: "tasks s i = NotStarted"
    using proc_inv_Select [OF inv Select] by auto
  then have "i \<notin> holding (tasks s)"
    by (simp add: holding_def)
  then have "card (holding ((tasks s)(i := Running (documents ! i)))) = Suc (card (holding (tasks s)))"
    using holding_finite [OF inv] by (simp add: holding_upd)
  then show ?thesis
    using u Select by (auto simp: uncancelled_inv_def spawn_def)
next
  case Wait
  then show ?thesis using u by (simp add: uncancelled_inv_def)
next
  case (Returned r)
  then show ?thesis using u by simp
qed

lemma uncancelled_task:
  assumes inv: "proc_inv srt documents s" and u: "uncancelled_inv ncpu s"
  shows "uncancelled_inv ncpu (task_step srt documents idx s)"
proof (cases "tasks s idx")
  case NotStarted
  then show ?thesis using u by simp
next
  case (Running d)
  then have "idx \<in> holding (tasks s)"
    by (simp add: holding_def)
  then have "holding ((tasks s)(idx := Releasing)) = holding (tasks s)"
    by (auto simp: holding_upd)
  then show ?thesis
    using u Running by (simp add: uncancelled_inv_def)
next
  case Releasing
  then have m: "idx \<in> holding (tasks s)"
    by (simp add: holding_def)
  then have "card (holding ((tasks s)(idx := Finishing))) = card (holding (tasks s)) - 1"
    using holding_finite [OF inv] by (simp add: holding_upd)
  then show ?thesis
    using u Releasing by (auto simp: uncancelled_inv_def)
next
  case Finishing
  then have "idx \<notin> holding (tasks s)"
    by (simp add: holding_def)
  then have "holding ((tasks s)(idx := Finished)) = holding (tasks s)"
    by (simp add: holding_upd)
  then show ?thesis
    using u Finishing by (simp add: uncancelled_inv_def)
next
  case Finished
  then show ?thesis using u by simp
qed

lemma uncancelled_step:
  assumes "proc_inv srt documents s" "uncancelled_inv ncpu s" "a \<noteq> Cancel"
  shows "uncancelled_inv ncpu (step srt ncpu documents s a)"
  using assms
  by (cases a) (simp_all add: uncancelled_main uncancelled_task del: main_step.simps task_step.simps)

lemma uncancelled_run:
  assumes "Cancel \<notin> set sched"
  shows "uncancelled_inv ncpu (run srt ncpu False documents sched)"
  using assms
proof (induction sched rule: rev_induct)
  case Nil
  then show ?case by (simp add: run_def uncancelled_init)
next
  case (snoc a sched)
  then have "uncancelled_inv ncpu (run srt ncpu False documents sched)" "a \<noteq> Cancel"
    by auto
  with inv_run [of srt documents ncpu False sched]
  have "uncancelled_inv ncpu (step srt ncpu documents (run srt ncpu False documents sched) a)"
    by (rule uncancelled_step)
  then show ?case
    by (simp add: run_def del: step.simps)
qed

lemma weight_upd:
  fixes n :: nat
  assumes "idx < n"
  shows "(\<Sum>i<n. task_weight ((ts(idx := t)) i)) + task_weight (ts idx)
           = (\<Sum>i<n. task_weight (ts i)) + task_weight t"
proof -
  have m: "idx \<in> {..<n}" using assms by simp
  have "(\<Sum>i<n. task_weight ((ts(idx := t)) i))
          = task_weight t + (\<Sum>i\<in>{..<n} - {idx}. task_weight ((ts(idx := t)) i))"
    using sum.remove [OF finite_lessThan m, of "\<lambda>i. task_weight ((ts(idx := t)) i)"] by simp
  moreover have "(\<Sum>i\<in>{..<n} - {idx}. task_weight ((ts(idx := t)) i))
          = (\<Sum>i\<in>{..<n} - {idx}. task_weight (ts i))"
    by (rule sum.cong) simp_all
  moreover have "(\<Sum>i<n. task_weight (ts i))
          = task_weight (ts idx) + (\<Sum>i\<in>{..<n} - {idx}. task_weight (ts i))"
    using sum.remove [OF finite_lessThan m, of "\<lambda>i. task_weight (ts i)"] by simp
  ultimately show ?thesis by simp
qed

lemma results_not_full:
  assumes inv: "proc_inv srt documents s" and r: "tasks s idx = Running d"
  shows "length (results s) < length documents"
proof -
  have idx: "idx < length documents"
    using proc_inv_started [OF inv, of idx] r by simp
  have sub: "fst ` set (results s) \<subseteq> {..<length documents} - {idx}"
  proof
    fix i assume "i \<in> fst ` set (results s)"
    then obtain e where "(i, e) \<in> set (results s)" by auto
    then have p: "past_select (tasks s i)"
      using proc_inv_results [OF inv] by blast
    then have "tasks s i \<noteq> NotStarted" "i \<noteq> idx"
      using r by (auto simp: past_select_def)
    then show "i \<in> {..<length documents} - {idx}"
      using proc_inv_started [OF inv, of i] by simp
  qed
  have "length (results s) = length (map fst (results s))" by simp
  also have "\<dots> = card (fst ` set (results s))"
    using distinct_card [OF proc_inv_distinct [OF inv]] by simp
  also have "\<dots> \<le> card ({..<length documents} - {idx})"
    using sub by (intro card_mono) simp_all
  also have "\<dots> < length documents"
    using idx by simp
  finally show ?thesis .
qed

lemma task_progress:
  assumes inv: "proc_inv srt documents s" and u: "uncancelled_inv ncpu s"
    and st: "tasks s idx \<noteq> NotStarted" "tasks s idx \<noteq> Finished"
  shows "steps_left (length documents) (task_step srt documents idx s)
           < steps_left (length documents) s"
proof -
  have idx: "idx < length documents"
    using proc_inv_started [OF inv st(1)] .
  have nc: "\<not> ctx_done s"
    using u by (simp add: uncancelled_inv_def)
  note w = weight_upd [OF idx, of "tasks s"]
  show ?thesis
  proof (cases "tasks s idx")
    case NotStarted
    then show ?thesis using st by simp
  next
    case (Running d)
    have "length (results s) < length documents"
      using inv Running by (rule results_not_full)
    then show ?thesis
      using Running nc w [of Releasing] by (simp add: steps_left_def)
  next
    case Releasing
    then have "idx \<in> holding (tasks s)"
      by (simp add: holding_def)
    then have "0 < card (holding (tasks s))"
      using holding_finite [OF inv] by (auto simp: card_gt_0_iff)
    then have "0 < sem s"
      using u by (simp add: uncancelled_inv_def)
    then show ?thesis
      using Releasing w [of Finishing] by (simp add: steps_left_def)
  next
    case Finishing
    then show ?thesis
      using w [of Finished] by (simp add: steps_left_def)
  next
    case Finished
    then show ?thesis using st by simp
  qed
qed

lemma progress:
  assumes inv: "proc_inv srt documents s" and u: "uncancelled_inv ncpu s" and pos: "0 < ncpu"
    and nr: "\<forall>r. pc s \<noteq> Returned r"
  shows "\<exists>a. a \<noteq> Cancel
     \<and> steps_left (length documents) (step srt ncpu documents s a)
          < steps_left (length documents) s"
proof (cases "pc s")
  case (LoopTop i)
  have "i \<le> length documents"
    using proc_inv_LoopTop [OF inv LoopTop] by simp
  then have "steps_left (length documents) (step srt ncpu documents s (Main False))
          < steps_left (length documents) s"
    using LoopTop by (auto simp: steps_left_def)
  then show ?thesis by blast
next
  case (Select i)
  have i: "i < length documents" and ns: "tasks s i = NotStarted"
    using proc_inv_Select [OF inv Select] by auto
  show ?thesis
  proof (cases "sem s < ncpu")
    case True
    have nc: "\<not> ctx_done s"
      using u by (simp add: uncancelled_inv_def)
    have "(\<Sum>k<length documents. task_weight (((tasks s)(i := Running (documents ! i))) k))
            = (\<Sum>k<length documents. task_weight (tasks s k))"
      using weight_upd [OF i, of "tasks s" "Running (documents ! i)"] ns by simp
    then have "steps_left (length documents) (step srt ncpu documents s (Main False))
          < steps_left (length documents) s"
      using Select True nc i by (simp add: steps_left_def spawn_def)
    then show ?thesis by blast
  next
    case False
    then have "0 < card (holding (tasks s))"
      using u pos by (simp add: uncancelled_inv_def)
    then obtain idx where "idx \<in> holding (tasks s)"
      by (auto simp: card_gt_0_iff)
    then have "tasks s idx \<noteq> NotStarted" "tasks s idx \<noteq> Finished"
      by (auto simp: holding_def)
    with inv u have "steps_left (length documents) (task_step srt documents idx s)
           < steps_left (length documents) s"
      by (rule task_progress)
    then have "steps_left (length documents) (step srt ncpu documents s (Task idx))
           < steps_left (length documents) s"
      by simp
    then show ?thesis by blast
  qed
next
  case Wait
  show ?thesis
  proof (cases "wg s = 0")
    case True
    then have "steps_left (length documents) (step srt ncpu documents s (Main False))
          < steps_left (length documents) s"
      using Wait by (simp add: steps_left_def)
    then show ?thesis by blast
  next
    case False
    then have "active (tasks s) \<noteq> {}"
      using proc_inv_wg [OF inv] by auto
    then obtain idx where "idx \<in> active (tasks s)" by auto
    then have "tasks s idx \<noteq> NotStarted" "tasks s idx \<noteq> Finished"
      by (auto simp: active_def)
    with inv u have "steps_left (length documents) (task_step srt documents idx s)
           < steps_left (length documents) s"
      by (rule task_progress)
    then have "steps_left (length documents) (step srt ncpu documents s (Task idx))
           < steps_left (length documents) s"
      by simp
    then show ?thesis by blast
  qed
next
  case (Returned r)
  then show ?thesis using nr by simp
qed

lemma can_complete_aux:
  assumes pos: "0 < ncpu"
  shows "Cancel \<notin> set sched
    \<Longrightarrow> steps_left (length documents) (run srt ncpu False documents sched) = n
    \<Longrightarrow> \<exists>sched'. Cancel \<notin> set sched'
          \<and> processDocumentsParallel srt ncpu False documents (sched @ sched')
              = Some (Inr (map (processDocument srt) documents))"
proof (induction n arbitrary: sched rule: less_induct)
  case (less n)
  define s where "s = run srt ncpu False documents sched"
  show ?case
  proof (cases "\<exists>r. pc s = Returned r")
    case True
    then obtain r where r: "processDocumentsParallel srt ncpu False documents sched = Some r"
      by (auto simp: processDocumentsParallel_def s_def)
    then have "r = Inr (map (processDocument srt) documents)"
      using returned_value [OF r] less.prems(1) by simp
    then have "processDocumentsParallel srt ncpu False documents (sched @ [])
              = Some (Inr (map (processDocument srt) documents))"
      using r by simp
    then show ?thesis
      by (intro exI [of _ "[]"]) simp
  next
    case False
    have "proc_inv srt documents s" "uncancelled_inv ncpu s"
      unfolding s_def using less.prems(1) by (simp_all add: inv_run uncancelled_run)
    then obtain a where a: "a \<noteq> Cancel"
      "steps_left (length documents) (step srt ncpu documents s a) < steps_left (length documents) s"
      using progress [of srt documents s ncpu] pos False by blast
    have run: "run srt ncpu False documents (sched @ [a]) = step srt ncpu documents s a"
      by (simp add: run_def s_def del: step.simps)
    have "steps_left (length documents) (run srt ncpu False documents (sched @ [a])) < n"
      using a(2) less.prems(2) by (simp add: run s_def)
    moreover have "Cancel \<notin> set (sched @ [a])"
      using less.prems(1) a(1) by simp
    ultimately obtain sched' where "Cancel \<notin> set sched'"
      "processDocumentsParallel srt ncpu False documents ((sched @ [a]) @ sched')
              = Some (Inr (map (processDocument srt) documents))"
      using less.IH by blast
    then show ?thesis
      by (intro exI [of _ "a # sched'"]) (use a(1) in simp)
  qed
qed

lemma can_complete:
  assumes "0 < ncpu" "Cancel \<notin> set sched"
  shows "\<exists>sched'. Cancel \<notin> set sched'
          \<and> processDocumentsParallel srt ncpu False documents (sched @ sched')
              = Some (Inr (map (processDocument srt) documents))"
  using can_complete_aux [OF assms] by blast

subsection \<open>The claims on the processor\<close>

text \<open>
  Claim C1, as amended. Let \<open>sort.Slice\<close> sort by the comparator it is given and let
  at least one processor be available. For every input of N documents (also N = 0) a
  call that is not cancelled runs to its end under the sequential schedule, can still
  run to its end from every state it reaches, and whenever it returns it returns
  exactly the N processed documents, position \<open>i\<close> of the output holding the processed
  form of position \<open>i\<close> of the input, whatever the order in which the goroutines ran.
  A processed document differs from its input only in \<open>Items\<close>; a nil \<open>Items\<close> stays
  nil, and otherwise the items are those of the input, ordered by descending sort key.
  The order among items of equal key is the one \<open>sort.Slice\<close> leaves them in, which
  its contract does not fix.
\<close>

theorem processDocumentsParallel_result:
  assumes "sort_Slice_spec srt items_less" and "0 < ncpu"
  shows "processDocumentsParallel srt ncpu False documents (seq_schedule (length documents))
           = Some (Inr (map (processDocument srt) documents))
   \<and> (\<forall>sched. Cancel \<notin> set sched
        \<longrightarrow> (\<exists>sched'. Cancel \<notin> set sched'
              \<and> processDocumentsParallel srt ncpu False documents (sched @ sched')
                  = Some (Inr (map (processDocument srt) documents))))
   \<and> (\<forall>sched r. Cancel \<notin> set sched
          \<and> processDocumentsParallel srt ncpu False documents sched = Some r
        \<longrightarrow> r = Inr (map (processDocument srt) documents))
   \<and> (\<forall>sched c out. processDocumentsParallel srt ncpu c documents sched = Some (Inr out)
        \<longrightarrow> length out = length documents
          \<and> (\<forall>i < length documents.
                out ! i = processDocument srt (documents ! i)
              \<and> out ! i = (documents ! i)\<lparr>doc_Items := doc_Items (out ! i)\<rparr>
              \<and> (doc_Items (out ! i) = None \<longleftrightarrow> doc_Items (documents ! i) = None)
              \<and> sorted_wrt (\<lambda>a b. item_Sort b \<le> item_Sort a) (slice_elems (doc_Items (out ! i)))
              \<and> mset (slice_elems (doc_Items (out ! i)))
                  = mset (slice_elems (doc_Items (documents ! i)))))"
proof (intro conjI allI impI)
  show "processDocumentsParallel srt ncpu False documents (seq_schedule (length documents))
           = Some (Inr (map (processDocument srt) documents))"
    using assms(2) by (rule seq_schedule_returns)
next
  fix sched :: "action list"
  assume "Cancel \<notin> set sched"
  with assms(2) show "\<exists>sched'. Cancel \<notin> set sched'
              \<and> processDocumentsParallel srt ncpu False documents (sched @ sched')
                  = Some (Inr (map (processDocument srt) documents))"
    by (rule can_complete)
next
  fix sched r
  assume "Cancel \<notin> set sched \<and> processDocumentsParallel srt ncpu False documents sched = Some r"
  then show "r = Inr (map (processDocument srt) documents)"
    using returned_value [of srt ncpu False documents sched r] by simp
next
  fix sched c out
  assume a: "processDocumentsParallel srt ncpu c documents sched = Some (Inr out)"
  then have out: "out = map (processDocument srt) documents"
    using returned_value [of srt ncpu c documents sched "Inr out"] by simp
  then show "length out = length documents" by simp
  fix i assume i: "i < length documents"
  then show "out ! i = processDocument srt (documents ! i)"
    using out by simp
  then show "out ! i = (documents ! i)\<lparr>doc_Items := doc_Items (out ! i)\<rparr>"
    by (simp add: processDocument_fields)
  show "doc_Items (out ! i) = None \<longleftrightarrow> doc_Items (documents ! i) = None"
    using out i by (simp add: processDocument_Items)
  show "sorted_wrt (\<lambda>a b. item_Sort b \<le> item_Sort a) (slice_elems (doc_Items (out ! i)))"
    using out i processDocument_sorted(1) [OF assms(1)] by simp
  show "mset (slice_elems (doc_Items (out ! i))) = mset (slice_elems (doc_Items (documents ! i)))"
    using out i processDocument_sorted(2) [OF assms(1)] by simp
qed

lemmas run_defs = processDocumentsParallel_def run_def init_def seq_schedule_def spawn_def
      finish_def assemble_def collect_def processDocument_def insertionSort_def reversingSort_def
      mk_doc_def mk_item_def items_less_def upt_rec

theorem processDocumentsParallel_result_witness:
  "sort_Slice_spec insertionSort items_less \<and> (0::nat) < 4
   \<and> processDocumentsParallel insertionSort 4 False [doc_1, doc_2] (seq_schedule (length [doc_1, doc_2]))
       = Some (Inr [mk_doc ''doc-1'' (Some [mk_item ''item-2'' 50, mk_item ''item-1'' 10,
                                            mk_item ''item-3'' 5]),
                    mk_doc ''doc-2'' (Some [mk_item ''item-B'' 99, mk_item ''item-A'' 1])])
   \<and> Cancel \<notin> set (seq_schedule (length [doc_1, doc_2]))
   \<and> sorted_wrt (\<lambda>a b. item_Sort b \<le> item_Sort a)
        [mk_item ''item-2'' 50, mk_item ''item-1'' 10, mk_item ''item-3'' 5]"
proof -
  have p: "(0::nat) < 4" by simp
  have m: "map (processDocument insertionSort) [doc_1, doc_2]
             = [mk_doc ''doc-1'' (Some [mk_item ''item-2'' 50, mk_item ''item-1'' 10,
                                        mk_item ''item-3'' 5]),
                mk_doc ''doc-2'' (Some [mk_item ''item-B'' 99, mk_item ''item-A'' 1])]"
    by (simp add: processDocument_def insertionSort_def doc_1_def doc_2_def mk_doc_def mk_item_def
        items_less_def)
  note t = processDocumentsParallel_result [OF insertionSort_items_spec p, of "[doc_1, doc_2]"]
  have r: "processDocumentsParallel insertionSort 4 False [doc_1, doc_2]
          (seq_schedule (length [doc_1, doc_2]))
        = Some (Inr [mk_doc ''doc-1'' (Some [mk_item ''item-2'' 50, mk_item ''item-1'' 10,
                                        mk_item ''item-3'' 5]),
                mk_doc ''doc-2'' (Some [mk_item ''item-B'' 99, mk_item ''item-A'' 1])])"
    using t [THEN conjunct1] unfolding m .
  have nc: "Cancel \<notin> set (seq_schedule (length [doc_1, doc_2]))"
    by (simp add: seq_schedule_def upt_rec)
  have "\<forall>i < length [doc_1, doc_2].
           sorted_wrt (\<lambda>a b. item_Sort b \<le> item_Sort a)
             (slice_elems (doc_Items ([mk_doc ''doc-1'' (Some [mk_item ''item-2'' 50, mk_item ''item-1'' 10,
                                        mk_item ''item-3'' 5]),
                mk_doc ''doc-2'' (Some [mk_item ''item-B'' 99, mk_item ''item-A'' 1])] ! i)))"
    using t r by blast
  from this [rule_format, of 0] have "sorted_wrt (\<lambda>a b. item_Sort b \<le> item_Sort a)
        [mk_item ''item-2'' 50, mk_item ''item-1'' 10, mk_item ''item-3'' 5]"
    by (simp add: slice_elems_def mk_doc_def)
  then show ?thesis
    using insertionSort_items_spec p r nc by blast
qed

text \<open>
  On the 13 items of \<open>tie13_doc\<close> the path of Go's own sort moves the item at
  position 6 to the front: the pivot is swapped to the start of the slice and stays
  there.
\<close>

lemma sort_Slice_13_tie13:
  "processDocument sort_Slice_13 tie13_doc = tie13_doc_sorted"
  by (simp add: processDocument_def tie13_doc_def tie13_doc_sorted_def mk_doc_def
      sort_Slice_13_def choosePivot_func_def median_func_def
      order2_func_def partialInsertionSort_func_def partition_func_def swap_def
      insertionSort_func_def insertionSort_def items_less_def mk_item_def upt_rec
      scan_up.simps scan_down.simps partition_loop.simps Let_def)

text \<open>
  Claim C1 as it is written asks for a stable sort. \<open>sort.Slice\<close> promises none: a
  sorter that meets its contract and reverses ties swaps the two items of equal key of
  \<open>tie_doc\<close>; and along the path of Go's \<open>pdqsort_func\<close> the item at position 6 of
  \<open>tie13_doc\<close> ends up in front of the five items of the same key that precede it
  in the input.
\<close>

theorem unstable_sort_counterexample:
  "sort_Slice_spec reversingSort items_less
   \<and> processDocumentsParallel reversingSort 4 False [tie_doc] (seq_schedule 1)
       = Some (Inr [tie_doc_swapped])
   \<and> \<not> stable_by item_Sort (slice_elems (doc_Items tie_doc))
          (slice_elems (doc_Items tie_doc_swapped))
   \<and> processDocumentsParallel sort_Slice_13 4 False [tie13_doc] (seq_schedule 1)
       = Some (Inr [tie13_doc_sorted])
   \<and> \<not> stable_by item_Sort (slice_elems (doc_Items tie13_doc))
          (slice_elems (doc_Items tie13_doc_sorted))"
proof -
  have "processDocumentsParallel reversingSort 4 False [tie_doc] (seq_schedule 1)
       = Some (Inr [tie_doc_swapped])"
    by (simp add: run_defs tie_doc_def tie_doc_swapped_def)
  moreover have "\<not> stable_by item_Sort (slice_elems (doc_Items tie_doc))
          (slice_elems (doc_Items tie_doc_swapped))"
    by (simp add: stable_by_def tie_doc_def tie_doc_swapped_def slice_elems_def mk_doc_def mk_item_def)
  moreover have "processDocumentsParallel sort_Slice_13 4 False [tie13_doc] (seq_schedule 1)
       = Some (Inr [tie13_doc_sorted])"
    using seq_schedule_returns [of 4 sort_Slice_13 "[tie13_doc]"]
    by (simp add: sort_Slice_13_tie13)
  moreover have "\<not> stable_by item_Sort (slice_elems (doc_Items tie13_doc))
          (slice_elems (doc_Items tie13_doc_sorted))"
    by (simp add: stable_by_def tie13_doc_def tie13_doc_sorted_def slice_elems_def mk_doc_def
        mk_item_def)
  ultimately show ?thesis
    using reversingSort_items_spec by simp
qed

lemma step_Returned: "pc s = Returned r \<Longrightarrow> pc (step srt ncpu documents s a) = Returned r"
proof (cases a)
  case (Task idx)
  assume "pc s = Returned r"
  then show ?thesis using Task by (cases "tasks s idx") simp_all
qed simp_all

lemma step_done_returns_Cancelled:
  assumes "ctx_done s" "\<forall>r. pc s = Returned r \<longrightarrow> r = Inl Cancelled"
  shows "ctx_done (step srt ncpu documents s a)
    \<and> (\<forall>r. pc (step srt ncpu documents s a) = Returned r \<longrightarrow> r = Inl Cancelled)"
proof (cases a)
  case Cancel
  then show ?thesis using assms by simp
next
  case (Main b)
  then show ?thesis
    using assms by (cases "pc s") (auto simp: spawn_def finish_def)
next
  case (Task idx)
  then show ?thesis
    using assms by (cases "tasks s idx") auto
qed

lemma foldl_done_returns_Cancelled:
  assumes "ctx_done s" "\<forall>r. pc s = Returned r \<longrightarrow> r = Inl Cancelled"
  shows "ctx_done (foldl (step srt ncpu documents) s sched)
    \<and> (\<forall>r. pc (foldl (step srt ncpu documents) s sched) = Returned r \<longrightarrow> r = Inl Cancelled)"
  using assms
proof (induction sched arbitrary: s)
  case Nil
  then show ?case by simp
next
  case (Cons a sched)
  have "ctx_done (step srt ncpu documents s a)
    \<and> (\<forall>r. pc (step srt ncpu documents s a) = Returned r \<longrightarrow> r = Inl Cancelled)"
    using Cons.prems by (rule step_done_returns_Cancelled)
  then show ?case
    using Cons.IH [of "step srt ncpu documents s a"] by (simp del: step.simps)
qed

lemma cancelled_before_returns:
  assumes "documents \<noteq> []"
    and "processDocumentsParallel srt ncpu True documents sched = Some r"
  shows "r = Inl Cancelled"
proof -
  have "ctx_done (init True documents)"
    "\<forall>r. pc (init True documents) = Returned r \<longrightarrow> r = Inl Cancelled"
    using assms(1) by (simp_all add: init_def)
  then have "\<forall>r. pc (run srt ncpu True documents sched) = Returned r \<longrightarrow> r = Inl Cancelled"
    unfolding run_def using foldl_done_returns_Cancelled by blast
  then show ?thesis
    using assms(2) by (simp add: processDocumentsParallel_def split: main_pc.splits)
qed

lemma cancelled_during_returns:
  assumes "processDocumentsParallel srt ncpu c documents s1 = None"
    and "processDocumentsParallel srt ncpu c documents (s1 @ Cancel # s2) = Some r"
  shows "r = Inl Cancelled"
proof -
  define s where "s = step srt ncpu documents (run srt ncpu c documents s1) Cancel"
  have "\<forall>r. pc (run srt ncpu c documents s1) \<noteq> Returned r"
    using assms(1) by (auto simp: processDocumentsParallel_def split: main_pc.splits)
  then have "ctx_done s" "\<forall>r. pc s = Returned r \<longrightarrow> r = Inl Cancelled"
    by (simp_all add: s_def)
  then have "\<forall>r. pc (foldl (step srt ncpu documents) s s2) = Returned r \<longrightarrow> r = Inl Cancelled"
    using foldl_done_returns_Cancelled by blast
  moreover have "run srt ncpu c documents (s1 @ Cancel # s2) = foldl (step srt ncpu documents) s s2"
    by (simp add: run_def s_def)
  ultimately show ?thesis
    using assms(2) by (simp add: processDocumentsParallel_def split: main_pc.splits)
qed

lemma idle_step: "idle s \<Longrightarrow> idle (step srt ncpu documents s a)"
proof (cases a)
  case Cancel
  assume "idle s" then show ?thesis using Cancel by (simp add: idle_def)
next
  case (Main b)
  assume "idle s" then show ?thesis using Main by (auto simp: idle_def)
next
  case (Task idx)
  assume "idle s" then show ?thesis using Task by (simp add: idle_def)
qed

lemma cancelled_before_admits_none:
  "tasks (run srt ncpu True documents sched) i = NotStarted"
proof -
  have "idle (foldl (step srt ncpu documents) s sched)" if "idle s" for s
    using that by (induction sched arbitrary: s) (simp_all add: idle_step del: step.simps)
  moreover have "idle (init True documents)"
    by (simp add: idle_def init_def)
  ultimately have "idle (run srt ncpu True documents sched)"
    by (simp add: run_def)
  then show ?thesis by (simp add: idle_def)
qed

lemma cancelled_before_two_steps:
  assumes "documents \<noteq> []"
  shows "processDocumentsParallel srt ncpu True documents [Main b1, Main b2] = Some (Inl Cancelled)"
  using assms by (simp add: processDocumentsParallel_def run_def init_def finish_def)

lemma empty_input_returns:
  "processDocumentsParallel srt ncpu c [] sched = Some (Inr [])"
proof -
  have "pc (foldl (step srt ncpu []) s sched) = Returned r" if "pc s = Returned r" for s r
    using that by (induction sched arbitrary: s) (simp_all add: step_Returned del: step.simps)
  then show ?thesis
    by (simp add: processDocumentsParallel_def run_def init_def)
qed

text \<open>
  The paths on which a cancelled call does return. On a non-empty input, when the
  context is done before the call starts, no goroutine is ever started and the call
  returns the cancellation error and no documents, after two steps of the main
  goroutine; and when the context is cancelled while the call has not yet returned, a
  call that returns returns the cancellation error and no documents. On an empty input
  the \<open>len(documents) == 0\<close> guard returns the empty sequence and no error before the
  context is looked at.
\<close>

lemma cancelled_call:
  "(documents \<noteq> [] \<longrightarrow>
      (\<forall>sched i. tasks (run srt ncpu True documents sched) i = NotStarted)
    \<and> (\<forall>b1 b2. processDocumentsParallel srt ncpu True documents [Main b1, Main b2]
                  = Some (Inl Cancelled))
    \<and> (\<forall>sched r. processDocumentsParallel srt ncpu True documents sched = Some r
          \<longrightarrow> r = Inl Cancelled)
    \<and> (\<forall>c s1 s2 r. processDocumentsParallel srt ncpu c documents s1 = None
            \<and> processDocumentsParallel srt ncpu c documents (s1 @ Cancel # s2) = Some r
          \<longrightarrow> r = Inl Cancelled))
   \<and> (documents = [] \<longrightarrow>
        (\<forall>c sched. processDocumentsParallel srt ncpu c documents sched = Some (Inr [])))"
proof (intro conjI impI allI)
  fix sched i
  show "tasks (run srt ncpu True documents sched) i = NotStarted"
    by (rule cancelled_before_admits_none)
next
  fix b1 b2
  assume "documents \<noteq> []"
  then show "processDocumentsParallel srt ncpu True documents [Main b1, Main b2] = Some (Inl Cancelled)"
    by (rule cancelled_before_two_steps)
next
  fix sched r
  assume "documents \<noteq> []" "processDocumentsParallel srt ncpu True documents sched = Some r"
  then show "r = Inl Cancelled"
    by (rule cancelled_before_returns)
next
  fix c s1 s2 r
  assume "processDocumentsParallel srt ncpu c documents s1 = None
            \<and> processDocumentsParallel srt ncpu c documents (s1 @ Cancel # s2) = Some r"
  then show "r = Inl Cancelled"
    using cancelled_during_returns by blast
next
  fix c sched
  assume "documents = []"
  then show "processDocumentsParallel srt ncpu c documents sched = Some (Inr [])"
    by (simp add: empty_input_returns)
qed

lemma cancelled_call_example:
  "[doc_1, doc_2] \<noteq> []
   \<and> processDocumentsParallel insertionSort 4 True [doc_1, doc_2] [Main False, Main False]
       = Some (Inl Cancelled)
   \<and> tasks (run insertionSort 4 True [doc_1, doc_2] [Main False, Main False]) 0 = NotStarted
   \<and> processDocumentsParallel insertionSort 4 False [doc_1, doc_2] [Main False] = None
   \<and> processDocumentsParallel insertionSort 4 False [doc_1, doc_2]
        ([Main False] @ Cancel # [Main True, Task 0, Task 0, Task 0, Main False, Main False])
       = Some (Inl Cancelled)"
proof -
  have ne: "[doc_1, doc_2] \<noteq> []" by simp
  have n: "processDocumentsParallel insertionSort 4 False [doc_1, doc_2] [Main False] = None"
    by (simp add: processDocumentsParallel_def run_def init_def)
  have r: "processDocumentsParallel insertionSort 4 False [doc_1, doc_2]
        ([Main False] @ Cancel # [Main True, Task 0, Task 0, Task 0, Main False, Main False])
          \<noteq> None"
    by (simp add: processDocumentsParallel_def run_def init_def spawn_def)
  show ?thesis
    using cancelled_call [of "[doc_1, doc_2]" insertionSort 4] ne n r
    by blast
qed

text \<open>
  The empty input with the context done before the call: the call returns the empty
  sequence without an error.
\<close>

lemma cancelled_empty_input_example:
  "processDocumentsParallel insertionSort 4 True [] [Main False, Main False] = Some (Inr [])"
  by (simp add: processDocumentsParallel_def run_def init_def)

text \<open>
  The \<open>break\<close> in the \<open>ctx.Done()\<close> case of the loop's \<open>select\<close> leaves the
  \<open>select\<close>, not the loop: \<open>wg.Add(1)\<close> and the \<open>go\<close> statement of that index
  run all the same, without a token in \<open>sem\<close>. Once \<open>sem\<close> is short of a token it
  stays short under every step, \<open>wg\<close> never reaches zero, and the main goroutine never
  returns.
\<close>

lemma holding_active: "holding ts \<subseteq> active ts"
  by (auto simp: holding_def active_def)

lemma starved_wg:
  assumes "starved srt documents s"
  shows "wg s \<noteq> 0"
proof -
  have inv: "proc_inv srt documents s" and lt: "sem s < card (holding (tasks s))"
    using assms by (simp_all add: starved_def)
  have "card (holding (tasks s)) \<le> card (active (tasks s))"
    using holding_active proc_inv_finite [OF inv] by (rule card_mono [rotated])
  then have "0 < card (active (tasks s))"
    using lt by simp
  then show ?thesis
    using proc_inv_wg [OF inv] by simp
qed

lemma starved_main:
  assumes "starved srt documents s"
  shows "starved srt documents (main_step ncpu documents b s)"
proof -
  have inv': "proc_inv srt documents (main_step ncpu documents b s)"
    using assms by (simp add: starved_def inv_main del: main_step.simps)
  show ?thesis
  proof (cases "pc s")
    case (LoopTop i)
    then show ?thesis
      using assms inv' by (auto simp: starved_def)
  next
    case (Select i)
    then show ?thesis using assms by (simp add: starved_def)
  next
    case Wait
    then show ?thesis
      using assms starved_wg [OF assms] by simp
  next
    case (Returned r)
    then show ?thesis using assms by (simp add: starved_def)
  qed
qed

lemma starved_task:
  assumes "starved srt documents s"
  shows "starved srt documents (task_step srt documents idx s)"
proof -
  have inv: "proc_inv srt documents s" and cd: "ctx_done s"
    and lt: "sem s < card (holding (tasks s))"
    and pcs: "\<forall>i. pc s \<noteq> Select i" "\<forall>r. pc s \<noteq> Returned r"
    using assms by (simp_all add: starved_def)
  have inv': "proc_inv srt documents (task_step srt documents idx s)"
    using inv by (rule inv_task)
  show ?thesis
  proof (cases "tasks s idx")
    case NotStarted
    then show ?thesis using assms by simp
  next
    case (Running d)
    then have "idx \<in> holding (tasks s)"
      by (simp add: holding_def)
    then have "holding ((tasks s)(idx := Releasing)) = holding (tasks s)"
      by (auto simp: holding_upd)
    then show ?thesis
      using inv' Running cd lt pcs by (simp add: starved_def)
  next
    case Releasing
    then have m: "idx \<in> holding (tasks s)"
      by (simp add: holding_def)
    then have "card (holding ((tasks s)(idx := Finishing))) = card (holding (tasks s)) - 1"
      using holding_finite [OF inv] by (simp add: holding_upd)
    then show ?thesis
      using inv' Releasing cd lt pcs by (auto simp: starved_def)
  next
    case Finishing
    then have "idx \<notin> holding (tasks s)"
      by (simp add: holding_def)
    then have "holding ((tasks s)(idx := Finished)) = holding (tasks s)"
      by (simp add: holding_upd)
    then show ?thesis
      using inv' Finishing cd lt pcs by (simp add: starved_def)
  next
    case Finished
    then show ?thesis using assms by simp
  qed
qed

lemma starved_step:
  assumes "starved srt documents s"
  shows "starved srt documents (step srt ncpu documents s a)"
proof (cases a)
  case Cancel
  then show ?thesis
    using assms inv_cancel [of srt documents s] by (simp add: starved_def)
next
  case (Main b)
  then show ?thesis
    using starved_main [OF assms] by (simp del: main_step.simps)
next
  case (Task idx)
  then show ?thesis
    using starved_task [OF assms] by (simp del: task_step.simps)
qed

lemma starved_foldl:
  "starved srt documents s \<Longrightarrow> starved srt documents (foldl (step srt ncpu documents) s sched)"
  by (induction sched arbitrary: s) (simp_all add: starved_step del: step.simps)

text \<open>
  Claim C6: when the context is cancelled, no new task is admitted and the call returns
  the cancellation error and no documents. The code does not meet it. Let the
  cancellation arrive while the main goroutine is at the \<open>select\<close> of index \<open>i\<close>
  (an uncancelled schedule \<open>s1\<close> leads there), and let the \<open>select\<close> take the
  \<open>ctx.Done()\<close> case. Then task \<open>i\<close>, which was not started when the context was
  cancelled, is started after the cancellation, and the call returns under no
  continuation \<open>s2\<close> of the schedule: neither the cancellation error nor anything else.
\<close>

theorem cancel_at_select_never_returns:
  assumes "Cancel \<notin> set s1" and "pc (run srt ncpu False documents s1) = Select i"
  shows "tasks (run srt ncpu False documents s1) i = NotStarted
   \<and> ctx_done (run srt ncpu False documents (s1 @ [Cancel]))
   \<and> tasks (run srt ncpu False documents (s1 @ [Cancel, Main False])) i
       = Running (documents ! i)
   \<and> (\<forall>s2. processDocumentsParallel srt ncpu False documents (s1 @ [Cancel, Main False] @ s2)
             = None)"
proof -
  define s where "s = run srt ncpu False documents s1"
  define t where "t = step srt ncpu documents (step srt ncpu documents s Cancel) (Main False)"
  have inv: "proc_inv srt documents s"
    unfolding s_def by (rule inv_run)
  have u: "uncancelled_inv ncpu s"
    unfolding s_def using assms(1) by (rule uncancelled_run)
  have pc: "pc s = Select i"
    using assms(2) by (simp add: s_def)
  have ns: "tasks s i = NotStarted"
    using proc_inv_Select [OF inv pc] by auto
  have t: "t = spawn documents i (s\<lparr>ctx_done := True\<rparr>)"
    using pc by (simp add: t_def)
  have rt: "run srt ncpu False documents (s1 @ [Cancel, Main False]) = t"
    by (simp add: run_def s_def t_def del: step.simps)
  have invt: "proc_inv srt documents t"
    unfolding rt [symmetric] by (rule inv_run)
  have "i \<notin> holding (tasks s)"
    using ns by (simp add: holding_def)
  then have "card (holding ((tasks s)(i := Running (documents ! i)))) = Suc (card (holding (tasks s)))"
    using holding_finite [OF inv] by (simp add: holding_upd)
  then have "sem t < card (holding (tasks t))"
    using u by (simp add: t spawn_def uncancelled_inv_def)
  then have st: "starved srt documents t"
    using invt by (simp add: starved_def t spawn_def)
  have never: "processDocumentsParallel srt ncpu False documents (s1 @ [Cancel, Main False] @ s2) = None"
    for s2
  proof -
    have "run srt ncpu False documents (s1 @ [Cancel, Main False] @ s2)
            = foldl (step srt ncpu documents) t s2"
      using rt by (simp add: run_def del: step.simps)
    moreover have "starved srt documents (foldl (step srt ncpu documents) t s2)"
      using st by (rule starved_foldl)
    ultimately have "\<forall>r. pc (run srt ncpu False documents (s1 @ [Cancel, Main False] @ s2)) \<noteq> Returned r"
      by (simp add: starved_def)
    then show ?thesis
      by (auto simp: processDocumentsParallel_def split: main_pc.splits)
  qed
  have "ctx_done (run srt ncpu False documents (s1 @ [Cancel]))"
    by (simp add: run_ctx_done)
  moreover have "tasks t i = Running (documents ! i)"
    by (simp add: t spawn_def)
  ultimately show ?thesis
    using ns never rt by (simp add: s_def)
qed

theorem cancel_at_select_never_returns_witness:
  "Cancel \<notin> set [Main False]
   \<and> pc (run insertionSort 4 False [doc_1] [Main False]) = Select 0
   \<and> tasks (run insertionSort 4 False [doc_1] [Main False]) 0 = NotStarted
   \<and> tasks (run insertionSort 4 False [doc_1] ([Main False] @ [Cancel, Main False])) 0
       = Running doc_1
   \<and> processDocumentsParallel insertionSort 4 False [doc_1]
        ([Main False] @ [Cancel, Main False] @ [Task 0, Task 0, Task 0, Main False, Main False])
       = None"
proof -
  have a: "Cancel \<notin> set [Main False]" by simp
  have p: "pc (run insertionSort 4 False [doc_1] [Main False]) = Select 0"
    by (simp add: run_def init_def)
  show ?thesis
    using cancel_at_select_never_returns [OF a p] a p by simp
qed




text \<open>
  No run of a call ends in the "processing incomplete" error: results are missing only
  after a cancellation, and then the cancellation error is returned.
\<close>

lemma never_Incomplete:
  "processDocumentsParallel srt ncpu c documents sched \<noteq> Some (Inl (Incomplete n k))"
  using returned_value [of srt ncpu c documents sched "Inl (Incomplete n k)"] by auto

section \<open>Properties of Service.Update\<close>


lemma Update_merge_fields:
  "Update_merge doc req now =
     \<lparr>doc_ID = doc_ID doc,
      doc_Title = (case req_Title req of Some t \<Rightarrow> t | None \<Rightarrow> doc_Title doc),
      doc_Description = (case req_Description req of Some d \<Rightarrow> d | None \<Rightarrow> doc_Description doc),
      doc_CreatedAt = doc_CreatedAt doc,
      doc_UpdatedAt = now,
      doc_Items = (case req_Items req of Some its \<Rightarrow> its | None \<Rightarrow> doc_Items doc),
      doc_Internal = doc_Internal doc\<rparr>"
  by (cases doc) (simp add: Update_merge_def Let_def split: option.splits)

text \<open>
  Claim C10. When the store holds the document, \<open>Service.Update\<close> writes to the store,
  and returns when the write succeeds, the stored document with exactly the fields
  replaced whose request pointer is not nil (\<open>Title\<close>, \<open>Description\<close>, \<open>Items\<close>)
  and with \<open>UpdatedAt\<close> set to the current time; \<open>ID\<close>, \<open>CreatedAt\<close>,
  \<open>Internal\<close> and the fields with a nil pointer keep their stored values. After a
  successful write the cache entry of the document is deleted; a failed write is
  reported and the cache is left as it is.
\<close>

theorem Update_partial_merge:
  assumes "st_GetByID storage st key = Inr doc"
    and "merged = \<lparr>doc_ID = doc_ID doc,
      doc_Title = (case req_Title req of Some t \<Rightarrow> t | None \<Rightarrow> doc_Title doc),
      doc_Description = (case req_Description req of Some d \<Rightarrow> d | None \<Rightarrow> doc_Description doc),
      doc_CreatedAt = doc_CreatedAt doc,
      doc_UpdatedAt = now,
      doc_Items = (case req_Items req of Some its \<Rightarrow> its | None \<Rightarrow> doc_Items doc),
      doc_Internal = doc_Internal doc\<rparr>"
  shows "Service_Update storage st cache key req now =
           (case fst (st_Update storage st merged) of
              None \<Rightarrow> (Inr merged, snd (st_Update storage st merged), Cache_Delete cache key)
            | Some err \<Rightarrow> (Inl (''failed to update document: '' @ err),
                            snd (st_Update storage st merged), cache))"
  using assms
  by (simp add: Service_Update_def Update_merge_fields Let_def split: prod.splits option.splits)

theorem Update_partial_merge_witness:
  "st_GetByID mem_storage [(''doc-1'', doc_1)] ''doc-1'' = Inr doc_1
   \<and> Service_Update mem_storage [(''doc-1'', doc_1)] (Cache_New 5 60 2) ''doc-1''
        \<lparr>req_Title = Some ''new title'', req_Description = None, req_Items = None\<rparr> 42
      = (Inr (doc_1\<lparr>doc_Title := ''new title'', doc_UpdatedAt := 42\<rparr>),
         [(''doc-1'', doc_1\<lparr>doc_Title := ''new title'', doc_UpdatedAt := 42\<rparr>)],
         Cache_New 5 60 2)"
proof -
  have g: "st_GetByID mem_storage [(''doc-1'', doc_1)] ''doc-1'' = Inr doc_1"
    by (simp add: mem_storage_def)
  show ?thesis
    using Update_partial_merge [where req = "\<lparr>req_Title = Some ''new title'', req_Description = None, req_Items = None\<rparr>"
        and now = 42 and cache = "Cache_New 5 60 2", OF g refl] g
    by (simp add: mem_storage_def doc_1_def mk_doc_def Cache_Delete_def Cache_New_def)
qed

section \<open>Properties of processDocument on the store\<close>


lemma processDocument_h_nil:
  assumes "h_docs h p = Some doc" "doc_Items doc = NilSlice"
  shows "processDocument_h srt h p
           = Some (h\<lparr>h_docs := (h_docs h)(h_next h \<mapsto> doc), h_next := h_next h + 1\<rparr>, h_next h)"
  using assms by (simp add: processDocument_h_def sort_Slice_h_def Let_def)

lemma write_range_all:
  "length xs = length arr \<Longrightarrow> write_range arr 0 xs = xs"
  by (simp add: write_range_def)

lemma processDocument_h_slice:
  assumes d: "h_docs h p = Some doc" and it: "doc_Items doc = Slice a off n"
    and ne: "a \<noteq> h_next h"
  shows "processDocument_h srt h p
           = Some (h\<lparr>h_arrays := (h_arrays h)
                      (h_next h \<mapsto>
                         write_range
                           (write_range (replicate n zero_item) 0
                              (take n (slice_elems (slice_read h (Slice a off n)))))
                           0
                           (srt items_less
                              (take n (write_range (replicate n zero_item) 0
                                 (take n (slice_elems (slice_read h (Slice a off n)))))))),
                    h_docs := (h_docs h)(Suc (h_next h) \<mapsto> doc\<lparr>doc_Items := Slice (h_next h) 0 n\<rparr>),
                    h_next := Suc (Suc (h_next h))\<rparr>,
                   Suc (h_next h))"
proof -
  have r: "slice_read (h\<lparr>h_arrays := (h_arrays h)(h_next h \<mapsto> replicate n zero_item),
                          h_next := Suc (h_next h)\<rparr>) (Slice a off n)
             = slice_read h (Slice a off n)"
    using ne by (simp add: slice_read_def)
  show ?thesis
    using d it
    by (simp add: processDocument_h_def make_items_def copy_items_def sort_Slice_h_def
        slice_len_def r Let_def)
qed


lemma slice_read_length:
  assumes "slice_ok h (Slice a off n)"
  shows "length (slice_elems (slice_read h (Slice a off n))) = n"
  using assms by (auto simp: slice_ok_def slice_read_def slice_elems_def split: option.splits)

text \<open>
  Claim C7. \<open>processDocument\<close> on a document of a well-formed store returns the
  address of a new struct. Every struct and every backing array the store held before
  the call is unchanged after it, so the input document has the fields, the \<open>Items\<close>
  header and the items, in their order, that it had before. The new struct has the
  fields of the input except \<open>Items\<close>: that is nil when the input's is nil and else
  a slice of the same length over a new backing array. Read from the store, the new
  struct is the processed document of the value model when \<open>sort.Slice\<close> sorts.
\<close>

theorem processDocument_keeps_input:
  assumes wf: "wf_store h" and d: "h_docs h p = Some doc" and ok: "slice_ok h (doc_Items doc)"
  shows "\<exists>h' p' doc'. processDocument_h srt h p = Some (h', p')
     \<and> h_docs h' p' = Some doc' \<and> p' \<notin> dom (h_docs h)
     \<and> (\<forall>q \<in> dom (h_docs h). h_docs h' q = h_docs h q)
     \<and> (\<forall>a \<in> dom (h_arrays h). h_arrays h' a = h_arrays h a)
     \<and> h_docs h' p = Some doc
     \<and> read_doc h' doc = read_doc h doc
     \<and> doc' = doc\<lparr>doc_Items := doc_Items doc'\<rparr>
     \<and> (case doc_Items doc of
           NilSlice \<Rightarrow> doc_Items doc' = NilSlice
         | Slice a off n \<Rightarrow> (\<exists>a'. doc_Items doc' = Slice a' 0 n \<and> a' \<notin> dom (h_arrays h)))
     \<and> (sort_Slice_spec srt items_less
          \<longrightarrow> read_doc h' doc' = processDocument srt (read_doc h doc))"
proof (cases "doc_Items doc")
  case NilSlice
  have fresh: "h_next h \<notin> dom (h_docs h)"
    using wf by (auto simp: wf_store_def)
  have pne: "p \<noteq> h_next h"
    using fresh d by auto
  show ?thesis
    unfolding processDocument_h_nil [OF d NilSlice]
    apply (intro exI [of _ doc] exI conjI)
             apply (rule refl)
    subgoal by simp
    subgoal using fresh by simp
    subgoal using fresh by auto
    subgoal by simp
    subgoal using d pne by simp
    subgoal by (simp add: read_doc_def slice_read_def NilSlice)
    subgoal by simp
    subgoal by (simp add: NilSlice)
    subgoal by (simp add: read_doc_def slice_read_def NilSlice processDocument_def)
    done
next
  case (Slice a off n)
  have "q < h_next h" if "q \<in> dom (h_docs h)" for q
    using wf that by (simp add: wf_store_def)
  then have f1: "h_next h \<notin> dom (h_docs h)" and f2: "Suc (h_next h) \<notin> dom (h_docs h)"
    by fastforce+
  have "q < h_next h" if "q \<in> dom (h_arrays h)" for q
    using wf that by (simp add: wf_store_def)
  then have f3: "h_next h \<notin> dom (h_arrays h)"
    by fastforce
  note fresh = f1 f2 f3
  have pne: "p \<noteq> Suc (h_next h)"
    using fresh d by auto
  have adom: "a \<in> dom (h_arrays h)"
    using ok Slice by (auto simp: slice_ok_def split: option.splits)
  then have ne: "a \<noteq> h_next h"
    using fresh by auto
  have len: "length (slice_elems (slice_read h (Slice a off n))) = n"
    using ok Slice by (simp add: slice_read_length)
  define xs where "xs = slice_elems (slice_read h (Slice a off n))"
  have rd: "slice_read h (Slice a off n) = Some xs"
    by (simp add: xs_def slice_read_def slice_elems_def)
  have w1: "write_range (replicate n zero_item) 0 (take n xs) = xs"
    using len by (simp add: xs_def write_range_all)
  show ?thesis
    unfolding processDocument_h_slice [OF d Slice ne] xs_def [symmetric] w1
    apply (intro exI [of _ "doc\<lparr>doc_Items := Slice (h_next h) 0 n\<rparr>"] exI conjI)
             apply (rule refl)
    subgoal by simp
    subgoal using fresh by simp
    subgoal using fresh by auto
    subgoal using fresh by auto
    subgoal using d pne by simp
    subgoal using ne by (simp add: read_doc_def slice_read_def Slice)
    subgoal by simp
    subgoal using fresh by (simp add: Slice)
    subgoal
    proof
      assume "sort_Slice_spec srt items_less"
      then have "mset (srt items_less xs) = mset xs"
        by (simp add: sort_Slice_spec_def)
      then have "length (srt items_less xs) = n"
        using len mset_eq_length xs_def by fastforce
      have lx: "length xs = n"
        using len by (simp add: xs_def)
      have "write_range xs 0 (srt items_less (take n xs)) = srt items_less xs"
        using lx \<open>length (srt items_less xs) = n\<close> by (simp add: write_range_all)
      then have L: "slice_read
          (h\<lparr>h_arrays := (h_arrays h)(h_next h \<mapsto> write_range xs 0 (srt items_less (take n xs))),
             h_docs := (h_docs h)(Suc (h_next h) \<mapsto> doc\<lparr>doc_Items := Slice (h_next h) 0 n\<rparr>),
             h_next := Suc (Suc (h_next h))\<rparr>) (Slice (h_next h) 0 n) = Some (srt items_less xs)"
        using \<open>length (srt items_less xs) = n\<close> by (simp add: slice_read_def)
      have R: "slice_read h (doc_Items doc) = Some xs"
        using rd Slice by simp
      show "read_doc
     (h\<lparr>h_arrays := (h_arrays h)
          (h_next h \<mapsto> write_range xs 0 (srt items_less (take n xs))),
          h_docs := (h_docs h)
            (Suc (h_next h) \<mapsto> doc\<lparr>doc_Items := Slice (h_next h) 0 n\<rparr>),
          h_next := Suc (Suc (h_next h))\<rparr>)
     (doc\<lparr>doc_Items := Slice (h_next h) 0 n\<rparr>) =
    processDocument srt (read_doc h doc)"
        unfolding read_doc_def R
        by (simp add: L processDocument_def)
    qed
    done
qed


theorem processDocument_keeps_input_witness:
  "wf_store store_1 \<and> h_docs store_1 1 = Some (mk_doc ''doc-1'' (Slice 0 0 3))
   \<and> slice_ok store_1 (Slice 0 0 3)
   \<and> h_docs (fst (the (processDocument_h insertionSort store_1 1))) 1
       = Some (mk_doc ''doc-1'' (Slice 0 0 3))
   \<and> h_arrays (fst (the (processDocument_h insertionSort store_1 1))) 0
       = Some [mk_item ''item-1'' 10, mk_item ''item-2'' 50, mk_item ''item-3'' 5]"
proof -
  have wf: "wf_store store_1"
    by (simp add: wf_store_def store_1_def)
  have d: "h_docs store_1 1 = Some (mk_doc ''doc-1'' (Slice 0 0 3))"
    by (simp add: store_1_def)
  have ok: "slice_ok store_1 (doc_Items (mk_doc ''doc-1'' (Slice 0 0 3)))"
    by (simp add: slice_ok_def store_1_def mk_doc_def)
  have a0: "0 \<in> dom (h_arrays store_1)"
    "h_arrays store_1 0 = Some [mk_item ''item-1'' 10, mk_item ''item-2'' 50, mk_item ''item-3'' 5]"
    by (simp_all add: store_1_def)
  obtain h' p' where r: "processDocument_h insertionSort store_1 1 = Some (h', p')"
    and fd: "h_docs h' 1 = Some (mk_doc ''doc-1'' (Slice 0 0 3))"
    and fa: "\<forall>a \<in> dom (h_arrays store_1). h_arrays h' a = h_arrays store_1 a"
    using processDocument_keeps_input [OF wf d ok, of insertionSort] by blast
  have "h_arrays h' 0 = Some [mk_item ''item-1'' 10, mk_item ''item-2'' 50, mk_item ''item-3'' 5]"
    using fa a0 by simp
  then show ?thesis
    using wf d ok fd r by (simp add: mk_doc_def)
qed

end
